theory Spec2Isabelle
  imports Main
begin

section \<open>The recency cache (\<^verbatim>\<open>src/textual/_cache.py\<close>, class \<^verbatim>\<open>LRUCache\<close>)\<close>

text \<open>
  Every entry of the cache is a Python list \<^verbatim>\<open>[PREV, NEXT, KEY, VALUE]\<close>; the entries
  refer to each other and are mutated in place, so the lists live in an explicit heap,
  a function from addresses to cells. A cell is either the empty list \<^verbatim>\<open>[]\<close> (what
  \<^verbatim>\<open>self.root\<close> is after construction) or a four-element entry. A Python reference
  always denotes a live object, so the heap is total; addresses from \<open>fresh\<close> on are
  not allocated yet and hold \<open>Empty\<close>. Indexing an empty list raises IndexError,
  deleting an absent dictionary key raises KeyError.
\<close>

datatype error = KeyError | IndexError

type_synonym addr = nat

datatype ('k, 'v) cell = Empty | Entry addr addr 'k 'v

type_synonym ('k, 'v) heap = "addr \<Rightarrow> ('k, 'v) cell"

record ('k, 'v) lru_cache =
  maxsize :: int
  cache :: "'k \<rightharpoonup> addr"
  full :: bool
  root :: addr
  heap :: "('k, 'v) heap"
  fresh :: addr

definition res_bind :: "error + 'a \<Rightarrow> ('a \<Rightarrow> error + 'b) \<Rightarrow> error + 'b" where
  "res_bind m f = (case m of Inl e \<Rightarrow> Inl e | Inr x \<Rightarrow> f x)"

text \<open>Reading \<^verbatim>\<open>x[0]\<close>, \<^verbatim>\<open>x[1]\<close>, \<^verbatim>\<open>x[2]\<close>, \<^verbatim>\<open>x[3]\<close> and writing \<^verbatim>\<open>x[0] = y\<close>, \<^verbatim>\<open>x[1] = y\<close>.\<close>

definition get0 :: "('k, 'v) heap \<Rightarrow> addr \<Rightarrow> error + addr" where
  "get0 h a = (case h a of Empty \<Rightarrow> Inl IndexError | Entry p n k v \<Rightarrow> Inr p)"

definition get1 :: "('k, 'v) heap \<Rightarrow> addr \<Rightarrow> error + addr" where
  "get1 h a = (case h a of Empty \<Rightarrow> Inl IndexError | Entry p n k v \<Rightarrow> Inr n)"

definition get2 :: "('k, 'v) heap \<Rightarrow> addr \<Rightarrow> error + 'k" where
  "get2 h a = (case h a of Empty \<Rightarrow> Inl IndexError | Entry p n k v \<Rightarrow> Inr k)"

definition get3 :: "('k, 'v) heap \<Rightarrow> addr \<Rightarrow> error + 'v" where
  "get3 h a = (case h a of Empty \<Rightarrow> Inl IndexError | Entry p n k v \<Rightarrow> Inr v)"

definition set0 :: "('k, 'v) heap \<Rightarrow> addr \<Rightarrow> addr \<Rightarrow> error + ('k, 'v) heap" where
  "set0 h a x = (case h a of Empty \<Rightarrow> Inl IndexError | Entry p n k v \<Rightarrow> Inr (h(a := Entry x n k v)))"

definition set1 :: "('k, 'v) heap \<Rightarrow> addr \<Rightarrow> addr \<Rightarrow> error + ('k, 'v) heap" where
  "set1 h a x = (case h a of Empty \<Rightarrow> Inl IndexError | Entry p n k v \<Rightarrow> Inr (h(a := Entry p x k v)))"

text \<open>\<^verbatim>\<open>LRUCache.__init__\<close>: no check of \<^verbatim>\<open>maxsize\<close>; the root is a new empty list.\<close>

definition init :: "int \<Rightarrow> error + ('k, 'v) lru_cache" where
  "init m = Inr \<lparr>maxsize = m, cache = Map.empty, full = False, root = 0,
                 heap = (\<lambda>_. Empty), fresh = 1\<rparr>"

text \<open>\<^verbatim>\<open>__len__\<close> and \<^verbatim>\<open>__contains__\<close>.\<close>

definition len :: "('k, 'v) lru_cache \<Rightarrow> nat" where
  "len c = card (dom (cache c))"

definition contains :: "('k, 'v) lru_cache \<Rightarrow> 'k \<Rightarrow> bool" where
  "contains c k = (k \<in> dom (cache c))"

text \<open>
  \<^verbatim>\<open>set\<close>, first half (lines 70--77): the new entry is linked in as the new root.
  When the root list is still empty it is filled in place; otherwise a new list is
  allocated at \<open>fresh\<close>.
\<close>

definition link_new :: "'k \<Rightarrow> 'v \<Rightarrow> ('k, 'v) lru_cache \<Rightarrow> error + ('k, 'v) lru_cache" where
  "link_new key val c =
     (if heap c (root c) = Empty
      then Inr (c\<lparr>heap := (heap c)(root c := Entry (root c) (root c) key val)\<rparr>)
      else
        res_bind (get0 (heap c) (root c)) (\<lambda>r0.
        let new = fresh c;
            h1 = (heap c)(new := Entry r0 (root c) key val)
        in res_bind (get0 h1 (root c)) (\<lambda>r0'.
           res_bind (set1 h1 r0' new) (\<lambda>h2.
           res_bind (set0 h2 (root c) new) (\<lambda>h3.
           Inr (c\<lparr>root := new, heap := h3, fresh := Suc new\<rparr>))))))"

text \<open>\<^verbatim>\<open>set\<close>, second half (lines 79--85): eviction of the entry before the root.\<close>

definition evict :: "('k, 'v) lru_cache \<Rightarrow> error + ('k, 'v) lru_cache" where
  "evict c =
     (if full c \<or> int (card (dom (cache c))) > maxsize c
      then
        res_bind (get0 (heap c) (root c)) (\<lambda>last.
        res_bind (get0 (heap c) last) (\<lambda>l0.
        res_bind (set1 (heap c) l0 (root c)) (\<lambda>h1.
        res_bind (get0 h1 last) (\<lambda>l0'.
        res_bind (set0 h1 (root c) l0') (\<lambda>h2.
        res_bind (get2 h2 last) (\<lambda>k.
        if k \<in> dom (cache c)
        then Inr (c\<lparr>full := True, heap := h2, cache := (cache c)(k := None)\<rparr>)
        else Inl KeyError))))))
      else Inr c)"

definition set_item :: "'k \<Rightarrow> 'v \<Rightarrow> ('k, 'v) lru_cache \<Rightarrow> error + ('k, 'v) lru_cache" where
  "set_item key val c =
     (case cache c key of
        Some link \<Rightarrow> Inr c
      | None \<Rightarrow>
          res_bind (link_new key val c) (\<lambda>c1.
          evict (c1\<lparr>cache := (cache c1)(key \<mapsto> root c1)\<rparr>)))"

text \<open>
  \<^verbatim>\<open>get\<close> (lines 99--124). The result is the value found or the default; the default
  \<open>None\<close> is Python's \<^verbatim>\<open>None\<close>. An entry that is not the root is unlinked and linked
  in again before the root, and becomes the root.
\<close>

definition relink :: "addr \<Rightarrow> ('k, 'v) lru_cache \<Rightarrow> error + ('k, 'v) lru_cache" where
  "relink link c =
     res_bind (get1 (heap c) link) (\<lambda>l1.
     res_bind (get0 (heap c) link) (\<lambda>l0.
     res_bind (set1 (heap c) l0 l1) (\<lambda>h1.
     res_bind (get0 h1 link) (\<lambda>l0'.
     res_bind (get1 h1 link) (\<lambda>l1'.
     res_bind (set0 h1 l1' l0') (\<lambda>h2.
     res_bind (get0 h2 (root c)) (\<lambda>r0.
     res_bind (set0 h2 link r0) (\<lambda>h3.
     res_bind (set1 h3 link (root c)) (\<lambda>h4.
     res_bind (get0 h4 (root c)) (\<lambda>r0'.
     res_bind (set1 h4 r0' link) (\<lambda>h5.
     res_bind (set0 h5 (root c) link) (\<lambda>h6.
     Inr (c\<lparr>heap := h6, root := link\<rparr>)))))))))))))"

definition get_item ::
  "'k \<Rightarrow> 'v option \<Rightarrow> ('k, 'v) lru_cache \<Rightarrow> error + ('v option \<times> ('k, 'v) lru_cache)" where
  "get_item key dflt c =
     (case cache c key of
        None \<Rightarrow> Inr (dflt, c)
      | Some link \<Rightarrow>
          res_bind (if link \<noteq> root c then relink link c else Inr c) (\<lambda>c1.
          res_bind (get3 (heap c1) link) (\<lambda>v.
          Inr (Some v, c1))))"

text \<open>A sequence of \<^verbatim>\<open>set\<close> and \<^verbatim>\<open>get\<close> calls on one cache; the first exception ends it.\<close>

datatype ('k, 'v) cache_op = Set 'k 'v | Get 'k

fun run_ops :: "('k, 'v) cache_op list \<Rightarrow> ('k, 'v) lru_cache \<Rightarrow> error + ('k, 'v) lru_cache" where
  "run_ops [] c = Inr c"
| "run_ops (Set k v # ops) c = res_bind (set_item k v c) (run_ops ops)"
| "run_ops (Get k # ops) c = res_bind (get_item k None c) (\<lambda>(r, c'). run_ops ops c')"

definition run :: "int \<Rightarrow> ('k, 'v) cache_op list \<Rightarrow> error + ('k, 'v) lru_cache" where
  "run m ops = res_bind (init m) (run_ops ops)"

text \<open>
  Successor and predecessor of an element in a list read as a cycle: \<open>succ_in d xs a\<close>
  is the element after \<open>a\<close> in \<open>xs\<close>, or \<open>d\<close> when \<open>a\<close> is the last one; \<open>pred_in p xs a\<close>
  is the element before \<open>a\<close>, or \<open>p\<close> when \<open>a\<close> is the first one.
\<close>

fun succ_in :: "'a \<Rightarrow> 'a list \<Rightarrow> 'a \<Rightarrow> 'a" where
  "succ_in d [] a = d"
| "succ_in d (x # xs) a = (if x = a then (case xs of [] \<Rightarrow> d | y # _ \<Rightarrow> y) else succ_in d xs a)"

fun pred_in :: "'a \<Rightarrow> 'a list \<Rightarrow> 'a \<Rightarrow> 'a" where
  "pred_in p [] a = p"
| "pred_in p (x # xs) a = (if x = a then p else pred_in x xs a)"

definition csucc :: "'a list \<Rightarrow> 'a \<Rightarrow> 'a" where "csucc as a = succ_in (hd as) as a"

definition cpred :: "'a list \<Rightarrow> 'a \<Rightarrow> 'a" where "cpred as a = pred_in (last as) as a"

text \<open>
  The entries of a cache form a ring: the list \<open>as\<close> of their addresses, root first,
  has no repetition, and every entry refers to its cyclic predecessor and successor.
\<close>

fun is_entry :: "('k, 'v) cell \<Rightarrow> bool" where
  "is_entry Empty = False"
| "is_entry (Entry p n k v) = True"

fun prv :: "('k, 'v) cell \<Rightarrow> addr" where
  "prv Empty = 0"
| "prv (Entry p n k v) = p"

fun nxt :: "('k, 'v) cell \<Rightarrow> addr" where
  "nxt Empty = 0"
| "nxt (Entry p n k v) = n"

fun item :: "('k, 'v) cell \<Rightarrow> ('k \<times> 'v) option" where
  "item Empty = None"
| "item (Entry p n k v) = Some (k, v)"

definition ring :: "('k, 'v) heap \<Rightarrow> addr list \<Rightarrow> bool" where
  "ring h as \<longleftrightarrow> as \<noteq> [] \<and> distinct as \<and>
     (\<forall>a\<in>set as. is_entry (h a) \<and> prv (h a) = cpred as a \<and> nxt (h a) = csucc as a)"

text \<open>
  The invariant of a cache of positive capacity. The dictionary holds exactly the keys of
  the ring, each bound to its entry; the ring is not longer than \<^verbatim>\<open>maxsize\<close>, and has
  that length once the cache is full; before the first \<^verbatim>\<open>set\<close> the root is the empty list.
\<close>

definition index_ok :: "('k, 'v) lru_cache \<Rightarrow> addr list \<Rightarrow> bool" where
  "index_ok c as \<longleftrightarrow>
     (\<forall>k a. cache c k = Some a \<longleftrightarrow> a \<in> set as \<and> (\<exists>v. item (heap c a) = Some (k, v)))"

definition lru_inv :: "('k, 'v) lru_cache \<Rightarrow> addr list \<Rightarrow> bool" where
  "lru_inv c as \<longleftrightarrow>
     0 < maxsize c \<and> int (length as) \<le> maxsize c \<and> (full c \<longrightarrow> int (length as) = maxsize c) \<and>
     root c < fresh c \<and> (\<forall>a\<in>set as. a < fresh c) \<and>
     (as = [] \<longrightarrow> heap c (root c) = Empty) \<and>
     (as \<noteq> [] \<longrightarrow> ring (heap c) as \<and> hd as = root c) \<and>
     index_ok c as"

definition contents :: "('k, 'v) heap \<Rightarrow> addr list \<Rightarrow> ('k \<times> 'v) list" where
  "contents h as = map (\<lambda>a. the (item (h a))) as"

text \<open>
  The entries in recency order, read off the heap: start at the root and follow the
  \<^verbatim>\<open>NEXT\<close> references \<^verbatim>\<open>len()\<close> times. The first pair is the most recently used entry.
\<close>

fun walk :: "('k, 'v) heap \<Rightarrow> addr \<Rightarrow> nat \<Rightarrow> ('k \<times> 'v) list" where
  "walk h a 0 = []"
| "walk h a (Suc n) = (case h a of Empty \<Rightarrow> [] | Entry p nx k v \<Rightarrow> (k, v) # walk h nx n)"

definition items :: "('k, 'v) lru_cache \<Rightarrow> ('k \<times> 'v) list" where
  "items c = walk (heap c) (root c) (len c)"

text \<open>
  The history of uses of a sequence of calls: the keys used, oldest first. A call uses
  its key when it is a \<^verbatim>\<open>set\<close> that inserts the key or a \<^verbatim>\<open>get\<close> that finds it. A \<^verbatim>\<open>set\<close> of
  a key that is present does nothing and a \<^verbatim>\<open>get\<close> of an absent key finds no entry; these
  two are not uses.
\<close>

fun use_trace :: "('k, 'v) cache_op list \<Rightarrow> ('k, 'v) lru_cache \<Rightarrow> 'k list" where
  "use_trace [] c = []"
| "use_trace (Set k v # ops) c =
     (if contains c k then [] else [k]) @
     (case set_item k v c of Inl e \<Rightarrow> [] | Inr c' \<Rightarrow> use_trace ops c')"
| "use_trace (Get k # ops) c =
     (if contains c k then [k] else []) @
     (case get_item k None c of Inl e \<Rightarrow> [] | Inr (r, c') \<Rightarrow> use_trace ops c')"

definition uses :: "int \<Rightarrow> ('k, 'v) cache_op list \<Rightarrow> 'k list" where
  "uses m ops = (case init m of Inl e \<Rightarrow> [] | Inr c \<Rightarrow> use_trace ops c)"

text \<open>
  The time of the last use of a key in a history: the position, counted from 1, of its
  last occurrence, and 0 when the key was never used.
\<close>

definition last_use :: "'k list \<Rightarrow> 'k \<Rightarrow> nat" where
  "last_use tr k = length (dropWhile (\<lambda>x. x \<noteq> k) (rev tr))"

text \<open>The keys of a history in the order of their last use, the most recent first.\<close>

definition recency :: "'k list \<Rightarrow> 'k list" where
  "recency tr = rev (remdups tr)"

text \<open>\<^verbatim>\<open>set(k, v)\<close> followed by \<^verbatim>\<open>get(k)\<close> on the same cache.\<close>

definition set_then_get ::
  "'k \<Rightarrow> 'v \<Rightarrow> ('k, 'v) lru_cache \<Rightarrow> error + ('v option \<times> ('k, 'v) lru_cache)" where
  "set_then_get k v c = res_bind (set_item k v c) (get_item k None)"

section \<open>The tree widget (\<^verbatim>\<open>src/textual/widgets/_tree_node.py\<close>, \<^verbatim>\<open>_tree_control.py\<close>)\<close>

text \<open>
  A \<^verbatim>\<open>TreeNode\<close> object holds a reference to its parent and the list of its children, and
  the nodes are compared by identity (\<^verbatim>\<open>node is self\<close>), so the objects live in a store, a
  function from addresses to objects; a reference always denotes an object, so the store
  is total. Only the attributes that the traversal reads are kept: \<^verbatim>\<open>parent\<close>,
  \<^verbatim>\<open>node_id\<close>, \<^verbatim>\<open>children\<close> and \<^verbatim>\<open>_expanded\<close> (label, data, the \<^verbatim>\<open>rich\<close> tree and the
  \<^verbatim>\<open>loaded\<close> and \<^verbatim>\<open>_empty\<close> flags are never read by it).
\<close>

record tree_node =
  parent :: "addr option"
  node_id :: nat
  children :: "addr list"
  expanded :: bool

type_synonym store = "addr \<Rightarrow> tree_node"

text \<open>
  \<^verbatim>\<open>next_sibling\<close> (lines 117--129): the iterator over the parent's children is advanced
  to this node, and the next element is returned; \<^verbatim>\<open>StopIteration\<close> is caught.
\<close>

fun scan_next :: "addr \<Rightarrow> addr list \<Rightarrow> addr option" where
  "scan_next self [] = None"
| "scan_next self (node # iter_siblings) =
     (if node = self then (case iter_siblings of [] \<Rightarrow> None | n # _ \<Rightarrow> Some n)
      else scan_next self iter_siblings)"

definition next_sibling :: "store \<Rightarrow> addr \<Rightarrow> addr option" where
  "next_sibling s self =
     (case parent (s self) of None \<Rightarrow> None
      | Some p \<Rightarrow> scan_next self (children (s p)))"

text \<open>\<^verbatim>\<open>previous_sibling\<close> (lines 131--143): the last node seen before this one.\<close>

fun scan_previous :: "addr \<Rightarrow> addr option \<Rightarrow> addr list \<Rightarrow> addr option" where
  "scan_previous self sibling [] = None"
| "scan_previous self sibling (node # iter_siblings) =
     (if node = self then sibling else scan_previous self (Some node) iter_siblings)"

definition previous_sibling :: "store \<Rightarrow> addr \<Rightarrow> addr option" where
  "previous_sibling s self =
     (case parent (s self) of None \<Rightarrow> None
      | Some p \<Rightarrow> scan_previous self None (children (s p)))"

text \<open>
  \<^verbatim>\<open>next_node\<close> (lines 74--94). The \<^verbatim>\<open>while True\<close> loop walks up the parents; on a store
  whose parent references form a cycle it does not return, which is the value \<open>None\<close>
  of the outer option. The inner option is the result, a node or Python's \<^verbatim>\<open>None\<close>.
\<close>

partial_function (option) next_node_loop :: "store \<Rightarrow> addr \<Rightarrow> addr option option" where
  "next_node_loop s node =
     (case parent (s node) of
        None \<Rightarrow> Some None
      | Some p \<Rightarrow>
          (case next_sibling s p of
             Some sibling \<Rightarrow> Some (Some sibling)
           | None \<Rightarrow> next_node_loop s p))"

definition next_node :: "store \<Rightarrow> addr \<Rightarrow> addr option option" where
  "next_node s self =
     (if expanded (s self) \<and> children (s self) \<noteq> []
      then Some (Some (hd (children (s self))))
      else (case next_sibling s self of
              Some sibling \<Rightarrow> Some (Some sibling)
            | None \<Rightarrow> next_node_loop s self))"

text \<open>
  \<^verbatim>\<open>previous_node\<close> (lines 96--115) with its nested helper \<^verbatim>\<open>last_sibling\<close>, which
  calls itself on the last child; its \<^verbatim>\<open>else\<close> branch is the conditional expression of
  lines 107--109, kept as written.
\<close>

partial_function (option) last_sibling :: "store \<Rightarrow> addr \<Rightarrow> addr option" where
  "last_sibling s node =
     (if expanded (s node) \<and> children (s node) \<noteq> []
      then last_sibling s (last (children (s node)))
      else Some (if children (s node) \<noteq> [] \<and> expanded (s node)
                 then last (children (s node)) else node))"

definition previous_node :: "store \<Rightarrow> addr \<Rightarrow> addr option option" where
  "previous_node s self =
     (case previous_sibling s self of
        Some sibling \<Rightarrow> map_option Some (last_sibling s sibling)
      | None \<Rightarrow> Some (parent (s self)))"

text \<open>
  \<^verbatim>\<open>TreeControl\<close>. The reactive attributes \<^verbatim>\<open>cursor\<close>, \<^verbatim>\<open>cursor_line\<close>,
  \<^verbatim>\<open>show_cursor\<close> and \<^verbatim>\<open>hover_node\<close> are fields (their watchers only emit messages).
  \<open>control_node_id\<close> is the attribute \<^verbatim>\<open>node_id\<close> of the control, the last identifier
  given out, and \<open>tree_root\<close> its attribute \<^verbatim>\<open>root\<close>. The object made for
  the node with identifier \<open>n\<close> is allocated at address \<open>n\<close>.
\<close>

record tree_control =
  control_node_id :: nat
  nodes :: "nat \<rightharpoonup> addr"
  tree_root :: addr
  objects :: store
  cursor :: nat
  cursor_line :: int
  show_cursor :: bool
  hover_node :: "nat option"

definition new_node :: "addr option \<Rightarrow> nat \<Rightarrow> tree_node" where
  "new_node p n = \<lparr>parent = p, node_id = n, children = [], expanded = False\<rparr>"

definition tree_control_init :: tree_control where
  "tree_control_init =
     \<lparr>control_node_id = 0, nodes = [0 \<mapsto> 0], tree_root = 0,
      objects = (\<lambda>_. new_node None 0),
      cursor = 0, cursor_line = 0, show_cursor = False, hover_node = None\<rparr>"

text \<open>\<^verbatim>\<open>TreeControl.add\<close> (lines 58--74); \<^verbatim>\<open>self.nodes[node_id]\<close> raises KeyError.\<close>

definition add :: "nat \<Rightarrow> tree_control \<Rightarrow> error + tree_control" where
  "add nid tc =
     (case nodes tc nid of
        None \<Rightarrow> Inl KeyError
      | Some p \<Rightarrow>
          let new_id = control_node_id tc + 1;
              child_node = new_id;
              s1 = (objects tc)(child_node := new_node (Some p) new_id);
              s2 = s1(p := (s1 p)\<lparr>children := children (s1 p) @ [child_node]\<rparr>)
          in Inr (tc\<lparr>control_node_id := new_id, objects := s2,
                     nodes := (nodes tc)(new_id \<mapsto> child_node)\<rparr>))"

text \<open>\<^verbatim>\<open>TreeNode.expand\<close> and \<^verbatim>\<open>TreeNode.toggle\<close> (lines 145--151), on the node at an address.\<close>

definition expand :: "addr \<Rightarrow> bool \<Rightarrow> tree_control \<Rightarrow> tree_control" where
  "expand a b tc = tc\<lparr>objects := (objects tc)(a := (objects tc a)\<lparr>expanded := b\<rparr>)\<rparr>"

definition toggle :: "addr \<Rightarrow> tree_control \<Rightarrow> tree_control" where
  "toggle a tc = expand a (\<not> expanded (objects tc a)) tc"

text \<open>
  \<^verbatim>\<open>find_cursor\<close> (lines 76--100). The stack of iterators is a list of lists, its top
  first: what is left of each iterator. The loop may not return on a store with a cycle
  of children.
\<close>

partial_function (option) find_cursor_loop ::
  "store \<Rightarrow> nat \<Rightarrow> addr list list \<Rightarrow> int \<Rightarrow> int option option" where
  "find_cursor_loop s nid stack line =
     (case stack of
        [] \<Rightarrow> Some None
      | iter_children # rest \<Rightarrow>
          (case iter_children of
             [] \<Rightarrow> find_cursor_loop s nid rest line
           | node # iter_children' \<Rightarrow>
               if node_id (s node) = nid then Some (Some line)
               else find_cursor_loop s nid
                      ((if children (s node) \<noteq> [] \<and> expanded (s node)
                        then [children (s node)] else []) @ iter_children' # rest)
                      (line + 1)))"

definition find_cursor :: "tree_control \<Rightarrow> int option option" where
  "find_cursor tc = find_cursor_loop (objects tc) (cursor tc) [[tree_root tc]] 0"

text \<open>
  \<^verbatim>\<open>cursor_down\<close> and \<^verbatim>\<open>cursor_up\<close> (lines 142--160). The outer option is \<open>None\<close> when
  \<^verbatim>\<open>next_node\<close> or \<^verbatim>\<open>previous_node\<close> does not return.
\<close>

definition cursor_down :: "tree_control \<Rightarrow> (error + tree_control) option" where
  "cursor_down tc =
     (if \<not> show_cursor tc then Some (Inr (tc\<lparr>show_cursor := True\<rparr>))
      else (case nodes tc (cursor tc) of
              None \<Rightarrow> Some (Inl KeyError)
            | Some cursor_node \<Rightarrow>
                (case next_node (objects tc) cursor_node of
                   None \<Rightarrow> None
                 | Some None \<Rightarrow> Some (Inr tc)
                 | Some (Some n) \<Rightarrow>
                     Some (Inr (tc\<lparr>cursor_line := cursor_line tc + 1,
                                    cursor := node_id (objects tc n)\<rparr>)))))"

definition cursor_up :: "tree_control \<Rightarrow> (error + tree_control) option" where
  "cursor_up tc =
     (if \<not> show_cursor tc then Some (Inr (tc\<lparr>show_cursor := True\<rparr>))
      else (case nodes tc (cursor tc) of
              None \<Rightarrow> Some (Inl KeyError)
            | Some cursor_node \<Rightarrow>
                (case previous_node (objects tc) cursor_node of
                   None \<Rightarrow> None
                 | Some None \<Rightarrow> Some (Inr tc)
                 | Some (Some n) \<Rightarrow>
                     Some (Inr (tc\<lparr>cursor_line := cursor_line tc - 1,
                                    cursor := node_id (objects tc n)\<rparr>)))))"

text \<open>
  Calls on one control, in sequence. \<open>Expand\<close> and \<open>Toggle\<close> name the node by its
  identifier, as \<^verbatim>\<open>control.nodes[i].expand(b)\<close> does.
\<close>

datatype tree_op = Add nat | Expand nat bool | Toggle nat | CursorDown | CursorUp

fun tree_step :: "tree_op \<Rightarrow> tree_control \<Rightarrow> (error + tree_control) option" where
  "tree_step (Add nid) tc = Some (add nid tc)"
| "tree_step (Expand nid b) tc =
     Some (case nodes tc nid of None \<Rightarrow> Inl KeyError | Some a \<Rightarrow> Inr (expand a b tc))"
| "tree_step (Toggle nid) tc =
     Some (case nodes tc nid of None \<Rightarrow> Inl KeyError | Some a \<Rightarrow> Inr (toggle a tc))"
| "tree_step CursorDown tc = cursor_down tc"
| "tree_step CursorUp tc = cursor_up tc"

fun tree_run :: "tree_op list \<Rightarrow> tree_control \<Rightarrow> (error + tree_control) option" where
  "tree_run [] tc = Some (Inr tc)"
| "tree_run (op # ops) tc =
     (case tree_step op tc of
        None \<Rightarrow> None
      | Some (Inl e) \<Rightarrow> Some (Inl e)
      | Some (Inr tc') \<Rightarrow> tree_run ops tc')"

text \<open>
  \<^verbatim>\<open>previous_node\<close> as the specification simplifies it (C8): the helper's \<^verbatim>\<open>else\<close> branch
  is the node itself.
\<close>

partial_function (option) last_sibling_simple :: "store \<Rightarrow> addr \<Rightarrow> addr option" where
  "last_sibling_simple s node =
     (if expanded (s node) \<and> children (s node) \<noteq> []
      then last_sibling_simple s (last (children (s node)))
      else Some node)"

definition previous_node_simple :: "store \<Rightarrow> addr \<Rightarrow> addr option option" where
  "previous_node_simple s self =
     (case previous_sibling s self of
        Some sibling \<Rightarrow> map_option Some (last_sibling_simple s sibling)
      | None \<Rightarrow> Some (parent (s self)))"

text \<open>
  The invariant of the store of a control whose last identifier is \<open>N\<close>: parents have
  smaller addresses than their children, the parent and children attributes agree, no
  node is twice among the children of a node, and the object at an address \<open>a \<le> N\<close> has
  the identifier \<open>a\<close>.
\<close>

definition tree_wf :: "store \<Rightarrow> nat \<Rightarrow> bool" where
  "tree_wf s N \<longleftrightarrow>
     (\<forall>a p. parent (s a) = Some p \<longrightarrow> p < a \<and> a \<le> N \<and> a \<in> set (children (s p))) \<and>
     (\<forall>a c. c \<in> set (children (s a)) \<longrightarrow> parent (s c) = Some a) \<and>
     (\<forall>a. distinct (children (s a))) \<and>
     (\<forall>a. a \<le> N \<longrightarrow> node_id (s a) = a) \<and>
     (\<forall>a. 0 < a \<and> a \<le> N \<longrightarrow> parent (s a) \<noteq> None)"

definition control_inv :: "tree_control \<Rightarrow> bool" where
  "control_inv tc \<longleftrightarrow>
     tree_wf (objects tc) (control_node_id tc) \<and> tree_root tc = 0 \<and>
     (\<forall>i. nodes tc i = (if i \<le> control_node_id tc then Some i else None)) \<and>
     cursor tc \<le> control_node_id tc"

text \<open>
  The visible traversal below a node, in document order: the node, then, when it is
  expanded, the traversals of its children. (The bounds on the children make the
  recursion terminate on every store; they hold in a store that satisfies \<open>tree_wf\<close>.)
\<close>

function vis :: "nat \<Rightarrow> store \<Rightarrow> addr \<Rightarrow> addr list" where
  "vis N s a =
     a # (if expanded (s a) \<and> children (s a) \<noteq> []
          then concat (map (vis N s) (filter (\<lambda>c. a < c \<and> c \<le> N) (children (s a))))
          else [])"
  by pat_completeness auto

termination
  by (relation "measure (\<lambda>(N, s, a). Suc N - a)") auto

text \<open>What \<^verbatim>\<open>next_node\<close> does for a node that is not expanded or has no children.\<close>

definition up_next :: "store \<Rightarrow> addr \<Rightarrow> addr option option" where
  "up_next s a =
     (case next_sibling s a of Some x \<Rightarrow> Some (Some x) | None \<Rightarrow> next_node_loop s a)"

declare vis.simps [simp del]

text \<open>
  A node is in the visible traversal when all its ancestors are expanded; an ancestor of
  it is collapsed when its parent is, or an ancestor of its parent.
\<close>

inductive visible :: "store \<Rightarrow> addr \<Rightarrow> bool" for s where
  visible_root: "parent (s a) = None \<Longrightarrow> visible s a"
| visible_child: "parent (s a) = Some p \<Longrightarrow> expanded (s p) \<Longrightarrow> visible s p \<Longrightarrow> visible s a"

inductive collapsed_ancestor :: "store \<Rightarrow> addr \<Rightarrow> bool" for s where
  collapsed_parent: "parent (s a) = Some p \<Longrightarrow> \<not> expanded (s p) \<Longrightarrow> collapsed_ancestor s a"
| collapsed_above: "parent (s a) = Some p \<Longrightarrow> collapsed_ancestor s p \<Longrightarrow> collapsed_ancestor s a"





text \<open>
  The control that a sequence of calls builds from a new control (the new control itself
  when a call raises), and the tree of the specification's traversal example: the root 0
  with children X = 1 and Y = 2, X with children X1 = 3 and X2 = 4, all expanded.
\<close>

definition built :: "tree_op list \<Rightarrow> tree_control" where
  "built ops = (case tree_run ops tree_control_init of Some (Inr tc) \<Rightarrow> tc | _ \<Rightarrow> tree_control_init)"

definition spec_tree_ops :: "tree_op list" where
  "spec_tree_ops = [Add 0, Add 0, Add 1, Add 1, Expand 0 True, Expand 1 True, Expand 2 True,
     Expand 3 True, Expand 4 True]"

section \<open>Properties of the recency cache\<close>

lemmas cache_eval = res_bind_def get0_def get1_def get2_def get3_def set0_def set1_def init_def
  link_new_def evict_def set_item_def relink_def get_item_def len_def contains_def run_def

text \<open>
  C9, as the specification states it: constructing a cache with a non-positive capacity
  is reported as an error. The constructor does not look at \<^verbatim>\<open>maxsize\<close>: with capacity
  0 it returns a cache.
\<close>

theorem init_zero_no_error:
  "\<not> isl (init 0 :: error + (nat, nat) lru_cache)"
  by (simp add: init_def)

text \<open>
  C9, amended: construction succeeds for every \<^verbatim>\<open>maxsize\<close> and gives an empty cache
  that is not full; when \<^verbatim>\<open>maxsize\<close> is not positive, a first \<^verbatim>\<open>set\<close> on that cache
  succeeds as well and leaves the cache empty (the new entry is evicted at once).
\<close>

theorem init_accepts_any_maxsize:
  "\<exists>c. init m = Inr c \<and> maxsize c = m \<and> len c = 0 \<and> \<not> full c \<and>
       (m \<le> 0 \<longrightarrow> (\<exists>c'. set_item k v c = Inr c' \<and> len c' = 0 \<and> \<not> contains c' k))"
  by (simp add: cache_eval)

theorem init_accepts_any_maxsize_witness:
  "\<exists>c. init (- 1) = Inr c \<and> maxsize c = - 1 \<and> len c = 0 \<and> \<not> full c \<and>
       ((- 1 :: int) \<le> 0 \<and> (\<exists>c'. set_item (1::nat) (2::nat) c = Inr c' \<and> len c' = 0 \<and> \<not> contains c' 1))"
  using init_accepts_any_maxsize [of "- 1" "1::nat" "2::nat"] by simp

lemma succ_in_mem: "d \<in> S \<Longrightarrow> set xs \<subseteq> S \<Longrightarrow> succ_in d xs a \<in> S"
  by (induction xs) (auto split: list.split)

lemma pred_in_mem: "p \<in> S \<Longrightarrow> set xs \<subseteq> S \<Longrightarrow> pred_in p xs a \<in> S"
  by (induction xs arbitrary: p) auto

lemma csucc_mem: "a \<in> set xs \<Longrightarrow> csucc xs a \<in> set xs"
  unfolding csucc_def by (rule succ_in_mem) (cases xs; auto)+

lemma cpred_mem: "a \<in> set xs \<Longrightarrow> cpred xs a \<in> set xs"
  unfolding cpred_def by (rule pred_in_mem) (cases xs; auto)+

lemma succ_in_last: "xs \<noteq> [] \<Longrightarrow> distinct xs \<Longrightarrow> succ_in d xs (last xs) = d"
  by (induction xs) (auto split: list.splits)

lemma succ_in_not_last:
  "a \<in> set xs \<Longrightarrow> a \<noteq> last xs \<Longrightarrow> succ_in d xs a = succ_in d' xs a"
proof (induction xs)
  case Nil
  then show ?case by simp
next
  case (Cons x xs)
  show ?case
  proof (cases xs)
    case Nil
    with Cons.prems show ?thesis by simp
  next
    case (Cons y ys)
    show ?thesis
    proof (cases "x = a")
      case True
      then show ?thesis using Cons by simp
    next
      case False
      with Cons.prems Cons have "a \<in> set xs" "a \<noteq> last xs" by auto
      then have "succ_in d xs a = succ_in d' xs a" by (rule Cons.IH)
      then show ?thesis using False by simp
    qed
  qed
qed

lemma pred_in_hd: "xs \<noteq> [] \<Longrightarrow> pred_in p xs (hd xs) = p"
  by (cases xs) simp_all

lemma pred_in_not_hd:
  "a \<noteq> hd xs \<Longrightarrow> xs \<noteq> [] \<Longrightarrow> pred_in p xs a = pred_in p' xs a"
  by (cases xs) simp_all

lemma succ_in_absent: "a \<notin> set xs \<Longrightarrow> succ_in d xs a = d"
  by (induction xs) auto

lemma succ_in_hd_Cons: "succ_in d (x # y # ys) x = y"
  by simp

lemma pred_succ_in:
  "distinct xs \<Longrightarrow> a \<in> set xs \<Longrightarrow> a \<noteq> last xs \<Longrightarrow> pred_in p xs (succ_in d xs a) = a"
proof (induction xs arbitrary: p)
  case Nil
  then show ?case by simp
next
  case (Cons x xs)
  show ?case
  proof (cases xs)
    case Nil
    with Cons.prems show ?thesis by simp
  next
    case xs: (Cons y ys)
    show ?thesis
    proof (cases "x = a")
      case True
      then show ?thesis using xs Cons.prems by simp
    next
      case False
      with Cons.prems xs have a: "a \<in> set xs" "a \<noteq> last xs" "distinct xs" by auto
      have m: "succ_in d xs a \<in> set xs"
        using a(1,2) succ_in_not_last[OF a(1,2), of d "hd xs"] csucc_mem[OF a(1)]
        by (simp add: csucc_def)
      then have ne: "succ_in d xs a \<noteq> x" using Cons.prems by auto
      have "pred_in x xs (succ_in d xs a) = a" using a by (intro Cons.IH)
      then show ?thesis using False ne by simp
    qed
  qed
qed

lemma succ_pred_in:
  "distinct xs \<Longrightarrow> a \<in> set xs \<Longrightarrow> a \<noteq> hd xs \<Longrightarrow> succ_in d xs (pred_in p xs a) = a"
proof (induction xs arbitrary: p)
  case Nil
  then show ?case by simp
next
  case (Cons x xs)
  from Cons.prems have a: "a \<in> set xs" "a \<noteq> x" "distinct xs" "x \<notin> set xs" by auto
  then obtain y ys where xs: "xs = y # ys" by (cases xs) auto
  show ?case
  proof (cases "a = y")
    case True
    then show ?thesis using xs a by simp
  next
    case False
    then have h: "a \<noteq> hd xs" using xs by simp
    have "succ_in d xs (pred_in x xs a) = a" using a(3,1) h by (rule Cons.IH)
    moreover have "pred_in x xs a \<in> set xs"
      using pred_in_not_hd[OF h, of x "last xs"] cpred_mem[OF a(1)] xs by (simp add: cpred_def)
    then have "pred_in x xs a \<noteq> x" using a(4) by auto
    ultimately show ?thesis using a(2) by simp
  qed
qed

lemma cpred_csucc: "distinct xs \<Longrightarrow> a \<in> set xs \<Longrightarrow> cpred xs (csucc xs a) = a"
proof (cases "a = last xs")
  case True
  assume "distinct xs" "a \<in> set xs"
  then have "xs \<noteq> []" by auto
  then have "csucc xs a = hd xs" using True \<open>distinct xs\<close> by (simp add: csucc_def succ_in_last)
  then show ?thesis using True \<open>xs \<noteq> []\<close> by (simp add: cpred_def pred_in_hd)
next
  case False
  assume "distinct xs" "a \<in> set xs"
  then show ?thesis using False by (simp add: cpred_def csucc_def pred_succ_in)
qed

lemma csucc_cpred: "distinct xs \<Longrightarrow> a \<in> set xs \<Longrightarrow> csucc xs (cpred xs a) = a"
proof (cases "a = hd xs")
  case True
  assume "distinct xs" "a \<in> set xs"
  then have "xs \<noteq> []" by auto
  then have "cpred xs a = last xs" using True by (simp add: cpred_def pred_in_hd)
  then show ?thesis using True \<open>xs \<noteq> []\<close> \<open>distinct xs\<close> by (simp add: csucc_def succ_in_last)
next
  case False
  assume "distinct xs" "a \<in> set xs"
  then show ?thesis using False by (simp add: cpred_def csucc_def succ_pred_in)
qed

lemma csucc_Cons:
  "as \<noteq> [] \<Longrightarrow> distinct as \<Longrightarrow> n \<notin> set as \<Longrightarrow> b \<in> set as \<Longrightarrow>
   csucc (n # as) b = (if b = last as then n else csucc as b)"
  using succ_in_not_last[of b as n "hd as"] by (auto simp: csucc_def succ_in_last)

lemma csucc_Cons_new: "as \<noteq> [] \<Longrightarrow> csucc (n # as) n = hd as"
  by (cases as) (simp_all add: csucc_def)

lemma cpred_Cons:
  "as \<noteq> [] \<Longrightarrow> n \<notin> set as \<Longrightarrow> b \<in> set as \<Longrightarrow>
   cpred (n # as) b = (if b = hd as then n else cpred as b)"
  using pred_in_not_hd[of b as n "last as"] by (auto simp: cpred_def pred_in_hd)

lemma cpred_Cons_new: "as \<noteq> [] \<Longrightarrow> cpred (n # as) n = last as"
  by (simp add: cpred_def)

lemma succ_in_cases: "succ_in d xs a = d \<or> succ_in d xs a \<in> set xs"
proof -
  have "succ_in d xs a \<in> insert d (set xs)" by (rule succ_in_mem) blast+
  then show ?thesis by blast
qed

lemma pred_in_cases: "pred_in p xs a = p \<or> pred_in p xs a \<in> set xs"
proof -
  have "pred_in p xs a \<in> insert p (set xs)" by (rule pred_in_mem) blast+
  then show ?thesis by blast
qed

lemma succ_in_remove1:
  "distinct xs \<Longrightarrow> a \<in> set xs \<Longrightarrow> b \<in> set xs \<Longrightarrow> b \<noteq> a \<Longrightarrow> d \<noteq> a \<Longrightarrow>
   succ_in d (remove1 a xs) b = (if succ_in d xs b = a then succ_in d xs a else succ_in d xs b)"
proof (induction xs)
  case Nil
  then show ?case by simp
next
  case (Cons x xs)
  show ?case
  proof (cases "x = a")
    case True
    with Cons.prems have b: "b \<in> set xs" "a \<notin> set xs" "distinct xs" by auto
    then obtain y ys where xs: "xs = y # ys" by (cases xs) auto
    have "succ_in d xs b \<noteq> a"
      using succ_in_cases[of d xs b] b(2) Cons.prems(5) by auto
    then show ?thesis using True Cons.prems(4) xs by simp
  next
    case xa: False
    with Cons.prems have a: "a \<in> set xs" "distinct xs" "x \<notin> set xs" by auto
    then obtain y ys where xs: "xs = y # ys" by (cases xs) auto
    show ?thesis
    proof (cases "x = b")
      case True
      show ?thesis
      proof (cases "y = a")
        case ya: True
        then show ?thesis using True xa xs Cons.prems by (cases ys) auto
      next
        case False
        then show ?thesis using True xa xs by simp
      qed
    next
      case False
      with Cons.prems have "b \<in> set xs" by auto
      then have "succ_in d (remove1 a xs) b =
                 (if succ_in d xs b = a then succ_in d xs a else succ_in d xs b)"
        using Cons.IH a Cons.prems by blast
      then show ?thesis using False xa xs by simp
    qed
  qed
qed

lemma pred_in_remove1:
  "distinct xs \<Longrightarrow> a \<in> set xs \<Longrightarrow> b \<in> set xs \<Longrightarrow> b \<noteq> a \<Longrightarrow> p \<noteq> a \<Longrightarrow>
   pred_in p (remove1 a xs) b = (if pred_in p xs b = a then pred_in p xs a else pred_in p xs b)"
proof (induction xs arbitrary: p)
  case Nil
  then show ?case by simp
next
  case (Cons x xs)
  show ?case
  proof (cases "x = a")
    case True
    with Cons.prems have b: "b \<in> set xs" "a \<notin> set xs" "distinct xs" by auto
    then obtain y ys where xs: "xs = y # ys" by (cases xs) auto
    show ?thesis
    proof (cases "y = b")
      case yb: True
      then show ?thesis using True xs Cons.prems by simp
    next
      case False
      have "pred_in y ys b \<noteq> a" using pred_in_cases[of y ys b] b(2) xs by auto
      then show ?thesis using True False xs Cons.prems by simp
    qed
  next
    case xa: False
    with Cons.prems have a: "a \<in> set xs" "distinct xs" "x \<notin> set xs" by auto
    show ?thesis
    proof (cases "x = b")
      case True
      then show ?thesis using xa Cons.prems by simp
    next
      case False
      with Cons.prems have "b \<in> set xs" by auto
      then have "pred_in x (remove1 a xs) b =
                 (if pred_in x xs b = a then pred_in x xs a else pred_in x xs b)"
        using Cons.IH a Cons.prems xa by blast
      then show ?thesis using False xa by simp
    qed
  qed
qed

lemma hd_remove1: "a \<noteq> hd xs \<Longrightarrow> hd (remove1 a xs) = hd xs"
  by (cases xs) auto

lemma remove1_nonempty: "a \<noteq> hd xs \<Longrightarrow> xs \<noteq> [] \<Longrightarrow> remove1 a xs \<noteq> []"
  by (cases xs) auto

lemma csucc_remove1:
  assumes "distinct xs" "a \<in> set xs" "a \<noteq> hd xs" "b \<in> set xs" "b \<noteq> a"
  shows "csucc (remove1 a xs) b = (if csucc xs b = a then csucc xs a else csucc xs b)"
  using assms succ_in_remove1[of xs a b "hd xs"] by (simp add: csucc_def hd_remove1)

lemma pred_in_last:
  "a \<notin> set xs \<Longrightarrow> pred_in p (xs @ [a]) a = last (p # xs)"
  by (induction xs arbitrary: p) auto

lemma last_remove1:
  assumes "distinct xs" "a \<in> set xs" "a \<noteq> hd xs"
  shows "last (remove1 a xs) = (if last xs = a then cpred xs a else last xs)"
proof (cases "last xs = a")
  case True
  from assms have "xs \<noteq> []" by auto
  then obtain ys where xs: "xs = ys @ [a]" using True by (metis append_butlast_last_id)
  with assms have ys: "a \<notin> set ys" "ys \<noteq> []" by auto
  have "remove1 a xs = ys" using xs ys by (simp add: remove1_append)
  moreover have "cpred xs a = last ys"
    using xs ys pred_in_last[of a ys a] by (simp add: cpred_def)
  ultimately show ?thesis using True by simp
next
  case False
  have "last (remove1 a xs) = last xs" using assms(2) False
  proof (induction xs)
    case Nil
    then show ?case by simp
  next
    case (Cons x xs)
    then show ?case by (cases xs) auto
  qed
  then show ?thesis using False by simp
qed

lemma cpred_remove1:
  assumes "distinct xs" "a \<in> set xs" "a \<noteq> hd xs" "b \<in> set xs" "b \<noteq> a"
  shows "cpred (remove1 a xs) b = (if cpred xs b = a then cpred xs a else cpred xs b)"
proof (cases "b = hd xs")
  case True
  from assms have ne: "xs \<noteq> []" by auto
  have r: "remove1 a xs \<noteq> []" using assms(3) ne by (rule remove1_nonempty)
  have "hd (remove1 a xs) = b" using True assms(3) by (simp add: hd_remove1)
  then have "cpred (remove1 a xs) b = last (remove1 a xs)"
    unfolding cpred_def using pred_in_hd[OF r] by simp
  moreover have "cpred xs b = last xs" using True ne by (simp add: cpred_def pred_in_hd)
  ultimately show ?thesis using last_remove1[OF assms(1,2,3)] by simp
next
  case False
  from assms have ne: "xs \<noteq> []" by auto
  have r: "remove1 a xs \<noteq> []" using assms(3) ne by (rule remove1_nonempty)
  have bh: "b \<noteq> hd (remove1 a xs)" using False assms(3) by (simp add: hd_remove1)
  have "cpred (remove1 a xs) b = pred_in (hd xs) (remove1 a xs) b"
    unfolding cpred_def using bh r by (rule pred_in_not_hd)
  also have "\<dots> = (if pred_in (hd xs) xs b = a then pred_in (hd xs) xs a else pred_in (hd xs) xs b)"
    using assms by (intro pred_in_remove1) auto
  also have "pred_in (hd xs) xs b = cpred xs b"
    unfolding cpred_def using False ne by (rule pred_in_not_hd)
  also have "pred_in (hd xs) xs a = cpred xs a"
    unfolding cpred_def using assms(3) ne by (rule pred_in_not_hd)
  finally show ?thesis .
qed

lemma succ_in_neq: "distinct xs \<Longrightarrow> d \<noteq> a \<Longrightarrow> succ_in d xs a \<noteq> a"
  by (induction xs) (auto split: list.split)

lemma pred_in_neq: "p \<noteq> a \<Longrightarrow> pred_in p xs a \<noteq> a"
  by (induction xs arbitrary: p) auto

lemma csucc_neq:
  assumes "distinct xs" "a \<in> set xs" "2 \<le> length xs"
  shows "csucc xs a \<noteq> a"
proof (cases "hd xs = a")
  case True
  from assms(3) obtain y ys where "xs = a # y # ys" using True
    by (cases xs; cases "tl xs") auto
  then show ?thesis using assms(1) by (auto simp: csucc_def)
next
  case False
  then show ?thesis unfolding csucc_def using assms(1) by (intro succ_in_neq)
qed

lemma cpred_neq:
  assumes "distinct xs" "a \<in> set xs" "2 \<le> length xs"
  shows "cpred xs a \<noteq> a"
proof (cases "hd xs = a")
  case True
  from assms(3) obtain y ys where xs: "xs = a # y # ys" using True
    by (cases xs; cases "tl xs") auto
  then have "last xs \<in> set (y # ys)" by (metis last.simps last_in_set list.distinct(1))
  then have "last xs \<noteq> a" using assms(1) xs by auto
  then show ?thesis using xs by (simp add: cpred_def)
next
  case False
  from assms have ne: "xs \<noteq> []" by auto
  have "cpred xs a = pred_in (hd xs) xs a"
    unfolding cpred_def using False[symmetric] ne by (rule pred_in_not_hd)
  then show ?thesis using pred_in_neq[OF False] by simp
qed

lemma get0_entry: "is_entry (h a) \<Longrightarrow> get0 h a = Inr (prv (h a))"
  by (cases "h a") (simp_all add: get0_def)

lemma get1_entry: "is_entry (h a) \<Longrightarrow> get1 h a = Inr (nxt (h a))"
  by (cases "h a") (simp_all add: get1_def)

lemma set0_entry:
  "is_entry (h a) \<Longrightarrow> \<exists>h'. set0 h a x = Inr h' \<and> is_entry (h' a) \<and> prv (h' a) = x \<and>
     nxt (h' a) = nxt (h a) \<and> item (h' a) = item (h a) \<and> (\<forall>b. b \<noteq> a \<longrightarrow> h' b = h b)"
  by (cases "h a") (simp_all add: set0_def)

lemma set1_entry:
  "is_entry (h a) \<Longrightarrow> \<exists>h'. set1 h a x = Inr h' \<and> is_entry (h' a) \<and> nxt (h' a) = x \<and>
     prv (h' a) = prv (h a) \<and> item (h' a) = item (h a) \<and> (\<forall>b. b \<noteq> a \<longrightarrow> h' b = h b)"
  by (cases "h a") (simp_all add: set1_def)

lemma ring_frame: "ring h as \<Longrightarrow> (\<forall>a\<in>set as. h' a = h a) \<Longrightarrow> ring h' as"
  by (simp add: ring_def)

lemma ring_unlink:
  assumes r: "ring h as" and a: "a \<in> set as" "a \<noteq> hd as"
    and h1: "\<forall>b. b \<noteq> cpred as a \<longrightarrow> h1 b = h b"
    and h1p: "is_entry (h1 (cpred as a))" "nxt (h1 (cpred as a)) = csucc as a"
             "prv (h1 (cpred as a)) = prv (h (cpred as a))"
    and h2: "\<forall>b. b \<noteq> csucc as a \<longrightarrow> h2 b = h1 b"
    and h2n: "is_entry (h2 (csucc as a))" "prv (h2 (csucc as a)) = cpred as a"
             "nxt (h2 (csucc as a)) = nxt (h1 (csucc as a))"
  shows "ring h2 (remove1 a as)"
proof -
  from r have d: "distinct as" and ne: "as \<noteq> []"
    and pt: "\<And>b. b \<in> set as \<Longrightarrow> is_entry (h b) \<and> prv (h b) = cpred as b \<and> nxt (h b) = csucc as b"
    by (auto simp: ring_def)
  have "\<forall>b\<in>set (remove1 a as). is_entry (h2 b) \<and> prv (h2 b) = cpred (remove1 a as) b
          \<and> nxt (h2 b) = csucc (remove1 a as) b"
  proof
    fix b assume "b \<in> set (remove1 a as)"
    then have b: "b \<in> set as" "b \<noteq> a" using d by auto
    have cs: "csucc (remove1 a as) b = (if csucc as b = a then csucc as a else csucc as b)"
      using d a b by (rule csucc_remove1)
    have cp: "cpred (remove1 a as) b = (if cpred as b = a then cpred as a else cpred as b)"
      using d a b by (rule cpred_remove1)
    have e1: "(cpred as b = a) = (b = csucc as a)"
      using cpred_csucc[OF d a(1)] csucc_cpred[OF d b(1)] by auto
    have e2: "(csucc as b = a) = (b = cpred as a)"
      using cpred_csucc[OF d b(1)] csucc_cpred[OF d a(1)] by auto
    show "is_entry (h2 b) \<and> prv (h2 b) = cpred (remove1 a as) b
          \<and> nxt (h2 b) = csucc (remove1 a as) b"
    proof (cases "b = csucc as a")
      case True
      show ?thesis
      proof (cases "b = cpred as a")
        case bp: True
        show ?thesis using True bp h2n h1p e1 e2 cs cp by simp
      next
        case False
        then have "h1 b = h b" using h1 by simp
        then show ?thesis using True False h2n e1 e2 cs cp pt[OF b(1)] by simp
      qed
    next
      case False
      then have hb: "h2 b = h1 b" using h2 by simp
      show ?thesis
      proof (cases "b = cpred as a")
        case bp: True
        show ?thesis using False bp hb h1p e1 e2 cs cp pt[OF b(1)] by simp
      next
        case bp: False
        then have "h1 b = h b" using h1 by simp
        then show ?thesis using False bp hb e1 e2 cs cp pt[OF b(1)] by simp
      qed
    qed
  qed
  moreover have "remove1 a as \<noteq> []" using a(2) ne by (rule remove1_nonempty)
  ultimately show ?thesis using d by (simp add: ring_def)
qed

lemma ring_insert:
  assumes r: "ring h as" and l: "l \<notin> set as"
    and hl: "is_entry (h l)" "prv (h l) = last as" "nxt (h l) = hd as"
    and h1: "\<forall>b. b \<noteq> last as \<longrightarrow> h1 b = h b"
    and h1p: "is_entry (h1 (last as))" "nxt (h1 (last as)) = l"
             "prv (h1 (last as)) = prv (h (last as))"
    and h2: "\<forall>b. b \<noteq> hd as \<longrightarrow> h2 b = h1 b"
    and h2n: "is_entry (h2 (hd as))" "prv (h2 (hd as)) = l"
             "nxt (h2 (hd as)) = nxt (h1 (hd as))"
  shows "ring h2 (l # as)"
proof -
  from r have d: "distinct as" and ne: "as \<noteq> []"
    and pt: "\<And>b. b \<in> set as \<Longrightarrow> is_entry (h b) \<and> prv (h b) = cpred as b \<and> nxt (h b) = csucc as b"
    by (auto simp: ring_def)
  have la: "last as \<in> set as" "hd as \<in> set as" using ne by auto
  have "l \<noteq> last as" "l \<noteq> hd as" using l la by auto
  then have "h2 l = h l" using h1 h2 by simp
  then have L: "is_entry (h2 l) \<and> prv (h2 l) = cpred (l # as) l \<and> nxt (h2 l) = csucc (l # as) l"
    using hl ne by (simp add: cpred_Cons_new csucc_Cons_new)
  have "\<forall>b\<in>set as. is_entry (h2 b) \<and> prv (h2 b) = cpred (l # as) b \<and> nxt (h2 b) = csucc (l # as) b"
  proof
    fix b assume b: "b \<in> set as"
    have cs: "csucc (l # as) b = (if b = last as then l else csucc as b)"
      using ne d l b by (rule csucc_Cons)
    have cp: "cpred (l # as) b = (if b = hd as then l else cpred as b)"
      using ne l b by (rule cpred_Cons)
    show "is_entry (h2 b) \<and> prv (h2 b) = cpred (l # as) b \<and> nxt (h2 b) = csucc (l # as) b"
    proof (cases "b = hd as")
      case True
      show ?thesis
      proof (cases "b = last as")
        case bl: True
        show ?thesis using True bl h2n h1p cs cp by simp
      next
        case False
        then have "h1 b = h b" using h1 by simp
        then show ?thesis using True False h2n cs cp pt[OF b] by simp
      qed
    next
      case False
      then have hb: "h2 b = h1 b" using h2 by simp
      show ?thesis
      proof (cases "b = last as")
        case bl: True
        show ?thesis using False bl hb h1p cs cp pt[OF b] by simp
      next
        case bl: False
        then have "h1 b = h b" using h1 by simp
        then show ?thesis using False bl hb cs cp pt[OF b] by simp
      qed
    qed
  qed
  then show ?thesis using L d l by (simp add: ring_def)
qed

lemma set0_frame:
  "is_entry (h a) \<Longrightarrow> \<exists>h'. set0 h a x = Inr h' \<and> prv (h' a) = x \<and> nxt (h' a) = nxt (h a) \<and>
     (\<forall>b. b \<noteq> a \<longrightarrow> h' b = h b) \<and> (\<forall>b. item (h' b) = item (h b)) \<and>
     (\<forall>b. is_entry (h' b) = is_entry (h b))"
  by (cases "h a") (simp_all add: set0_def)

lemma set1_frame:
  "is_entry (h a) \<Longrightarrow> \<exists>h'. set1 h a x = Inr h' \<and> nxt (h' a) = x \<and> prv (h' a) = prv (h a) \<and>
     (\<forall>b. b \<noteq> a \<longrightarrow> h' b = h b) \<and> (\<forall>b. item (h' b) = item (h b)) \<and>
     (\<forall>b. is_entry (h' b) = is_entry (h b))"
  by (cases "h a") (simp_all add: set1_def)

lemma ring_entry: "ring h as \<Longrightarrow> a \<in> set as \<Longrightarrow> is_entry (h a)"
  by (simp add: ring_def)

lemma ring_prv: "ring h as \<Longrightarrow> a \<in> set as \<Longrightarrow> prv (h a) = cpred as a"
  by (simp add: ring_def)

lemma ring_nxt: "ring h as \<Longrightarrow> a \<in> set as \<Longrightarrow> nxt (h a) = csucc as a"
  by (simp add: ring_def)

lemma cpred_hd: "as \<noteq> [] \<Longrightarrow> cpred as (hd as) = last as"
  by (simp add: cpred_def pred_in_hd)

lemma csucc_last: "as \<noteq> [] \<Longrightarrow> distinct as \<Longrightarrow> csucc as (last as) = hd as"
  by (simp add: csucc_def succ_in_last)

text \<open>unlinking an entry that is not the root\<close>

lemma unlink_steps:
  assumes r: "ring h as" and a: "a \<in> set as" "a \<noteq> hd as"
  shows "\<exists>h1 h2. set1 h (cpred as a) (csucc as a) = Inr h1 \<and>
           get0 h1 a = Inr (cpred as a) \<and> get1 h1 a = Inr (csucc as a) \<and>
           set0 h1 (csucc as a) (cpred as a) = Inr h2 \<and>
           ring h2 (remove1 a as) \<and> h2 a = h a \<and>
           (\<forall>b. item (h2 b) = item (h b)) \<and> (\<forall>b. is_entry (h2 b) = is_entry (h b))"
proof -
  let ?p = "cpred as a" and ?n = "csucc as a"
  from r have d: "distinct as" and ne: "as \<noteq> []" by (auto simp: ring_def)
  have len: "2 \<le> length as" using a d by (cases as; cases "tl as") auto
  have pn: "?p \<in> set as" "?n \<in> set as" using a(1) by (simp_all add: cpred_mem csucc_mem)
  have neq: "?p \<noteq> a" "?n \<noteq> a" using d a(1) len by (simp_all add: cpred_neq csucc_neq)
  obtain h1 where h1: "set1 h ?p ?n = Inr h1" "nxt (h1 ?p) = ?n" "prv (h1 ?p) = prv (h ?p)"
      "\<forall>b. b \<noteq> ?p \<longrightarrow> h1 b = h b" "\<forall>b. item (h1 b) = item (h b)"
      "\<forall>b. is_entry (h1 b) = is_entry (h b)"
    using set1_frame[of h ?p ?n] ring_entry[OF r pn(1)] by blast
  have e1: "is_entry (h1 ?n)" "is_entry (h1 ?p)" using h1(6) r pn by (simp_all add: ring_entry)
  obtain h2 where h2: "set0 h1 ?n ?p = Inr h2" "prv (h2 ?n) = ?p" "nxt (h2 ?n) = nxt (h1 ?n)"
      "\<forall>b. b \<noteq> ?n \<longrightarrow> h2 b = h1 b" "\<forall>b. item (h2 b) = item (h1 b)"
      "\<forall>b. is_entry (h2 b) = is_entry (h1 b)"
    using set0_frame[of h1 ?n ?p] e1(1) by blast
  have h1a: "h1 a = h a" using h1(4) neq by simp
  then have g: "get0 h1 a = Inr ?p" "get1 h1 a = Inr ?n"
    using r a(1) by (simp_all add: get0_entry get1_entry ring_entry ring_prv ring_nxt)
  have "is_entry (h2 ?n)" using h2(6) e1 by simp
  then have "ring h2 (remove1 a as)"
    using ring_unlink[OF r a h1(4) e1(2) h1(2,3) h2(4) _ h2(2,3)] by simp
  moreover have "h2 a = h a" using h2(4) neq h1a by simp
  ultimately show ?thesis using h1 h2 g by auto
qed

text \<open>linking an entry in before the root\<close>

lemma insert_steps:
  assumes r: "ring h as" and l: "l \<notin> set as"
    and hl: "is_entry (h l)" "prv (h l) = last as" "nxt (h l) = hd as"
  shows "\<exists>h1 h2. get0 h (hd as) = Inr (last as) \<and> set1 h (last as) l = Inr h1 \<and>
           set0 h1 (hd as) l = Inr h2 \<and> ring h2 (l # as) \<and>
           (\<forall>b. item (h2 b) = item (h b)) \<and> (\<forall>b. is_entry (h2 b) = is_entry (h b))"
proof -
  from r have d: "distinct as" and ne: "as \<noteq> []" by (auto simp: ring_def)
  have la: "last as \<in> set as" "hd as \<in> set as" using ne by auto
  have g: "get0 h (hd as) = Inr (last as)"
    using r la(2) ne by (simp add: get0_entry ring_entry ring_prv cpred_hd)
  obtain h1 where h1: "set1 h (last as) l = Inr h1" "nxt (h1 (last as)) = l"
      "prv (h1 (last as)) = prv (h (last as))"
      "\<forall>b. b \<noteq> last as \<longrightarrow> h1 b = h b" "\<forall>b. item (h1 b) = item (h b)"
      "\<forall>b. is_entry (h1 b) = is_entry (h b)"
    using set1_frame[of h "last as" l] ring_entry[OF r la(1)] by blast
  have e1: "is_entry (h1 (hd as))" "is_entry (h1 (last as))"
    using h1(6) r la by (simp_all add: ring_entry)
  obtain h2 where h2: "set0 h1 (hd as) l = Inr h2" "prv (h2 (hd as)) = l"
      "nxt (h2 (hd as)) = nxt (h1 (hd as))"
      "\<forall>b. b \<noteq> hd as \<longrightarrow> h2 b = h1 b" "\<forall>b. item (h2 b) = item (h1 b)"
      "\<forall>b. is_entry (h2 b) = is_entry (h1 b)"
    using set0_frame[of h1 "hd as" l] e1(1) by blast
  have "is_entry (h2 (hd as))" using h2(6) e1 by simp
  then have "ring h2 (l # as)"
    using ring_insert[OF r l hl h1(4) e1(2) h1(2,3) h2(4) _ h2(2,3)] by simp
  then show ?thesis using g h1 h2 by auto
qed

lemma contents_cong: "(\<forall>a\<in>set as. item (h' a) = item (h a)) \<Longrightarrow> contents h' as = contents h as"
  by (simp add: contents_def)

lemma is_entry_item: "is_entry x \<Longrightarrow> \<exists>k v. item x = Some (k, v)"
  by (cases x) simp_all

lemma item_is_entry: "item x = Some kv \<Longrightarrow> is_entry x"
  by (cases x) simp_all

lemma get2_item: "item (h a) = Some (k, v) \<Longrightarrow> get2 h a = Inr k"
  by (cases "h a") (simp_all add: get2_def)

lemma get3_item: "item (h a) = Some (k, v) \<Longrightarrow> get3 h a = Inr v"
  by (cases "h a") (simp_all add: get3_def)

lemma index_keys_inj:
  assumes "index_ok c as" "a \<in> set as" "b \<in> set as"
    "item (heap c a) = Some (k, v)" "item (heap c b) = Some (k, w)"
  shows "a = b"
proof -
  have "cache c k = Some a" "cache c k = Some b" using assms by (auto simp: index_ok_def)
  then show ?thesis by simp
qed

lemma index_dom:
  assumes "index_ok c as" "\<forall>a\<in>set as. is_entry (heap c a)"
  shows "dom (cache c) = fst ` set (contents (heap c) as)"
proof (rule set_eqI)
  fix k
  show "k \<in> dom (cache c) \<longleftrightarrow> k \<in> fst ` set (contents (heap c) as)"
  proof
    assume "k \<in> dom (cache c)"
    then obtain a where "cache c k = Some a" by auto
    then obtain v where "a \<in> set as" "item (heap c a) = Some (k, v)"
      using assms(1) by (auto simp: index_ok_def)
    then have "(k, v) \<in> set (contents (heap c) as)" by (force simp: contents_def)
    then show "k \<in> fst ` set (contents (heap c) as)" by force
  next
    assume "k \<in> fst ` set (contents (heap c) as)"
    then obtain a where a: "a \<in> set as" "k = fst (the (item (heap c a)))"
      by (auto simp: contents_def)
    then obtain k' v where "item (heap c a) = Some (k', v)"
      using assms(2) is_entry_item by blast
    then have "cache c k = Some a" using a assms(1) by (auto simp: index_ok_def)
    then show "k \<in> dom (cache c)" by auto
  qed
qed

lemma contents_keys_distinct:
  assumes "index_ok c as" "\<forall>a\<in>set as. is_entry (heap c a)" "distinct as"
  shows "distinct (map fst (contents (heap c) as))"
proof -
  have "inj_on (\<lambda>a. fst (the (item (heap c a)))) (set as)"
  proof (rule inj_onI)
    fix a b assume ab: "a \<in> set as" "b \<in> set as"
      and eq: "fst (the (item (heap c a))) = fst (the (item (heap c b)))"
    obtain k v where ka: "item (heap c a) = Some (k, v)" using ab(1) assms(2) is_entry_item by blast
    obtain k' w where kb: "item (heap c b) = Some (k', w)" using ab(2) assms(2) is_entry_item by blast
    from eq ka kb have "k = k'" by simp
    then show "a = b" using index_keys_inj[OF assms(1) ab ka] kb by simp
  qed
  then show ?thesis using assms(3) by (simp add: contents_def distinct_map comp_def)
qed

lemma inv_entries: "lru_inv c as \<Longrightarrow> \<forall>a\<in>set as. is_entry (heap c a)"
  by (cases "as = []") (auto simp: lru_inv_def ring_def)

lemma inv_distinct: "lru_inv c as \<Longrightarrow> distinct as"
  by (cases "as = []") (auto simp: lru_inv_def ring_def)

lemma inv_len: "lru_inv c as \<Longrightarrow> card (dom (cache c)) = length as"
proof -
  assume i: "lru_inv c as"
  then have io: "index_ok c as" by (simp add: lru_inv_def)
  have "card (dom (cache c)) = card (set (map fst (contents (heap c) as)))"
    using index_dom[OF io inv_entries[OF i]] by simp
  also have "\<dots> = length (map fst (contents (heap c) as))"
    using contents_keys_distinct[OF io inv_entries[OF i] inv_distinct[OF i]]
    by (rule distinct_card)
  finally show ?thesis by (simp add: contents_def)
qed

lemma index_empty: "index_ok c [] \<Longrightarrow> cache c = Map.empty"
  by (rule ext) (simp add: index_ok_def)

lemma ring_single:
  "is_entry (h r) \<Longrightarrow> prv (h r) = r \<Longrightarrow> nxt (h r) = r \<Longrightarrow> ring h [r]"
  by (simp add: ring_def cpred_def csucc_def)

lemma set_item_empty:
  assumes i: "lru_inv c []"
  shows "\<exists>c'. set_item k v c = Inr c' \<and> lru_inv c' [root c] \<and>
           contents (heap c') [root c] = [(k, v)] \<and> maxsize c' = maxsize c \<and> \<not> full c'"
proof -
  from i have e: "cache c = Map.empty" "heap c (root c) = Empty" "0 < maxsize c" "\<not> full c"
    "root c < fresh c"
    by (auto simp: lru_inv_def index_empty)
  let ?c' = "c\<lparr>heap := (heap c)(root c := Entry (root c) (root c) k v),
               cache := (cache c)(k \<mapsto> root c)\<rparr>"
  have s: "set_item k v c = Inr ?c'"
    using e by (simp add: set_item_def link_new_def evict_def res_bind_def)
  have "index_ok ?c' [root c]" using e(1) by (auto simp: index_ok_def)
  moreover have "ring (heap ?c') [root c]" by (rule ring_single) simp_all
  ultimately have "lru_inv ?c' [root c]" using e by (simp add: lru_inv_def)
  then show ?thesis using s e by (simp add: contents_def)
qed

lemma link_new_nonempty:
  assumes r: "ring (heap c) as" and hd: "hd as = root c" and f: "\<forall>a\<in>set as. a < fresh c"
  shows "\<exists>c1. link_new k v c = Inr c1 \<and> ring (heap c1) (fresh c # as) \<and> root c1 = fresh c \<and>
           fresh c1 = Suc (fresh c) \<and> item (heap c1 (fresh c)) = Some (k, v) \<and>
           (\<forall>a\<in>set as. item (heap c1 a) = item (heap c a)) \<and>
           cache c1 = cache c \<and> full c1 = full c \<and> maxsize c1 = maxsize c"
proof -
  let ?n = "fresh c" and ?h = "heap c"
  let ?h1 = "?h(?n := Entry (last as) (root c) k v)"
  from r have ne: "as \<noteq> []" by (simp add: ring_def)
  then have ra: "root c \<in> set as" using hd by (metis hd_in_set)
  have nn: "?n \<notin> set as" using f by auto
  then have rn: "root c \<noteq> ?n" using ra by auto
  have e: "is_entry (?h (root c))" using r ra by (rule ring_entry)
  then have ne0: "?h (root c) \<noteq> Empty" by auto
  have g0: "get0 ?h (root c) = Inr (last as)"
    using r ra ne hd by (simp add: get0_entry ring_entry ring_prv cpred_hd[symmetric])
  have r1: "ring ?h1 as" using r nn by (intro ring_frame[OF r]) auto
  obtain h2 h3 where st: "get0 ?h1 (hd as) = Inr (last as)" "set1 ?h1 (last as) ?n = Inr h2"
      "set0 h2 (hd as) ?n = Inr h3" "ring h3 (?n # as)" "\<forall>b. item (h3 b) = item (?h1 b)"
    using insert_steps[OF r1 nn, of ] hd by auto
  have "link_new k v c = Inr (c\<lparr>root := ?n, heap := h3, fresh := Suc ?n\<rparr>)"
    using ne0 g0 st(1,2,3) hd by (simp add: link_new_def res_bind_def Let_def)
  moreover have "item (h3 ?n) = Some (k, v)" using st(5) by simp
  moreover have "\<forall>a\<in>set as. item (h3 a) = item (?h a)" using st(5) nn by auto
  ultimately show ?thesis using st(4) by simp
qed

lemma remove1_last: "distinct xs \<Longrightarrow> xs \<noteq> [] \<Longrightarrow> remove1 (last xs) xs = butlast xs"
proof -
  assume d: "distinct xs" and ne: "xs \<noteq> []"
  have xs: "xs = butlast xs @ [last xs]" using ne by simp
  then have "distinct (butlast xs @ [last xs])" using d by simp
  then have "last xs \<notin> set (butlast xs)" by simp
  then have "remove1 (last xs) (butlast xs @ [last xs]) = butlast xs"
    by (simp add: remove1_append)
  then show ?thesis using xs by simp
qed

lemma last_neq_hd: "distinct xs \<Longrightarrow> 2 \<le> length xs \<Longrightarrow> last xs \<noteq> hd xs"
  by (cases xs; cases "tl xs") auto

lemma evict_steps:
  assumes r: "ring (heap c) bs" and hd: "hd bs = root c" and len: "2 \<le> length bs"
    and io: "index_ok c bs"
    and cond: "full c \<or> maxsize c < int (card (dom (cache c)))"
  shows "\<exists>c'. evict c = Inr c' \<and> ring (heap c') (butlast bs) \<and> root c' = root c \<and> full c' \<and>
           index_ok c' (butlast bs) \<and> (\<forall>b. item (heap c' b) = item (heap c b)) \<and>
           fresh c' = fresh c \<and> maxsize c' = maxsize c"
proof -
  let ?h = "heap c" and ?a = "last bs"
  from r have d: "distinct bs" and ne: "bs \<noteq> []" by (auto simp: ring_def)
  have a: "?a \<in> set bs" "?a \<noteq> hd bs" using ne d len by (simp_all add: last_neq_hd)
  have ra: "root c \<in> set bs" using hd ne by (metis hd_in_set)
  have g0: "get0 ?h (root c) = Inr ?a"
    using r ra ne hd by (simp add: get0_entry ring_entry ring_prv cpred_hd[symmetric])
  have g1: "get0 ?h ?a = Inr (cpred bs ?a)"
    using r a(1) by (simp add: get0_entry ring_entry ring_prv)
  have cs: "csucc bs ?a = root c" using ne d hd by (simp add: csucc_last)
  obtain h1 h2 where st: "set1 ?h (cpred bs ?a) (csucc bs ?a) = Inr h1"
      "get0 h1 ?a = Inr (cpred bs ?a)"
      "set0 h1 (csucc bs ?a) (cpred bs ?a) = Inr h2"
      "ring h2 (remove1 ?a bs)" "h2 ?a = ?h ?a" "\<forall>b. item (h2 b) = item (?h b)"
    using unlink_steps[OF r a] by blast
  obtain k v where kv: "item (?h ?a) = Some (k, v)"
    using ring_entry[OF r a(1)] is_entry_item by blast
  then have g2: "get2 h2 ?a = Inr k" using st(5) by (simp add: get2_item)
  have ck: "cache c k = Some ?a" using io a(1) kv by (auto simp: index_ok_def)
  then have kd: "k \<in> dom (cache c)" by auto
  let ?c' = "c\<lparr>full := True, heap := h2, cache := (cache c)(k := None)\<rparr>"
  have ev: "evict c = Inr ?c'"
    using cond g0 g1 st(1,2,3) g2 kd cs by (simp add: evict_def res_bind_def)
  have rb: "remove1 ?a bs = butlast bs" using d ne by (rule remove1_last)
  have "index_ok ?c' (butlast bs)"
    unfolding index_ok_def
  proof (intro allI)
    fix k' b
    have sb: "set (butlast bs) = set bs - {?a}" using rb d by (metis set_remove1_eq)
    show "cache ?c' k' = Some b \<longleftrightarrow>
          b \<in> set (butlast bs) \<and> (\<exists>v. item (heap ?c' b) = Some (k', v))"
    proof (cases "k' = k")
      case True
      have "\<not> (b \<in> set bs - {?a} \<and> (\<exists>w. item (?h b) = Some (k, w)))"
      proof
        assume "b \<in> set bs - {?a} \<and> (\<exists>w. item (?h b) = Some (k, w))"
        then have "cache c k = Some b" "b \<noteq> ?a" using io by (auto simp: index_ok_def)
        then show False using ck by simp
      qed
      then show ?thesis using True sb st(6) by simp
    next
      case False
      have "cache c k' = Some b \<longleftrightarrow> b \<in> set bs \<and> (\<exists>w. item (?h b) = Some (k', w))"
        using io by (simp add: index_ok_def)
      moreover have "b = ?a \<Longrightarrow> \<not> (\<exists>w. item (?h b) = Some (k', w))" using kv False by simp
      ultimately show ?thesis using False sb st(6) by auto
    qed
  qed
  then show ?thesis using ev st(4,6) rb by simp
qed

lemma contents_Cons: "contents h (a # as) = the (item (h a)) # contents h as"
  by (simp add: contents_def)

lemma contents_butlast: "contents h (butlast as) = butlast (contents h as)"
  by (simp add: contents_def map_butlast)

lemma set_item_nonempty:
  assumes i: "lru_inv c as" and ne: "as \<noteq> []" and k: "cache c k = None"
  shows "\<exists>c' as'. set_item k v c = Inr c' \<and> lru_inv c' as' \<and>
           contents (heap c') as' =
             (if full c \<or> maxsize c < int (length as) + 1
              then butlast ((k, v) # contents (heap c) as) else (k, v) # contents (heap c) as) \<and>
           maxsize c' = maxsize c \<and>
           full c' = (full c \<or> maxsize c < int (length as) + 1)"
proof -
  from i ne have r: "ring (heap c) as" and hd: "hd as = root c"
    and f: "\<forall>a\<in>set as. a < fresh c" and io: "index_ok c as"
    and m: "0 < maxsize c" "int (length as) \<le> maxsize c" "full c \<longrightarrow> int (length as) = maxsize c"
    by (simp_all add: lru_inv_def)
  let ?n = "fresh c"
  obtain c1 where c1: "link_new k v c = Inr c1" "ring (heap c1) (?n # as)" "root c1 = ?n"
      "fresh c1 = Suc ?n" "item (heap c1 ?n) = Some (k, v)"
      "\<forall>a\<in>set as. item (heap c1 a) = item (heap c a)"
      "cache c1 = cache c" "full c1 = full c" "maxsize c1 = maxsize c"
    using link_new_nonempty[OF r hd f] by blast
  let ?c2 = "c1\<lparr>cache := (cache c1)(k \<mapsto> root c1)\<rparr>"
  have s: "set_item k v c = evict ?c2" using k c1(1) by (simp add: set_item_def res_bind_def)
  have nn: "?n \<notin> set as" using f by auto
  have io2: "index_ok ?c2 (?n # as)"
    unfolding index_ok_def
  proof (intro allI)
    fix k' b
    have old: "cache c k' = Some b \<longleftrightarrow> b \<in> set as \<and> (\<exists>w. item (heap c b) = Some (k', w))"
      using io by (simp add: index_ok_def)
    have "cache c k = Some b \<longleftrightarrow> b \<in> set as \<and> (\<exists>w. item (heap c b) = Some (k, w))"
      using io by (simp add: index_ok_def)
    then have nk: "b \<in> set as \<Longrightarrow> \<not> (\<exists>w. item (heap c b) = Some (k, w))"
      using k by simp
    show "cache ?c2 k' = Some b \<longleftrightarrow>
          b \<in> set (?n # as) \<and> (\<exists>w. item (heap ?c2 b) = Some (k', w))"
    proof (cases "k' = k")
      case True
      then show ?thesis using c1(3,5,6,7) nk nn by auto
    next
      case False
      then show ?thesis using c1(3,5,6,7) old nn by auto
    qed
  qed
  have ct: "contents (heap c1) (?n # as) = (k, v) # contents (heap c) as"
    using c1(5,6) by (simp add: contents_def)
  have r2: "ring (heap ?c2) (?n # as)" "hd (?n # as) = root ?c2" using c1(2,3) by simp_all
  have en: "\<forall>a\<in>set (?n # as). is_entry (heap ?c2 a)" using r2(1) by (simp add: ring_def)
  have d2: "distinct (?n # as)" using r2(1) by (simp add: ring_def)
  have "dom (cache ?c2) = fst ` set (contents (heap ?c2) (?n # as))"
    using io2 en by (rule index_dom)
  then have "card (dom (cache ?c2)) = card (set (map fst (contents (heap ?c2) (?n # as))))"
    by simp
  also have "\<dots> = length (map fst (contents (heap ?c2) (?n # as)))"
    using contents_keys_distinct[OF io2 en d2] by (rule distinct_card)
  finally have card: "int (card (dom (cache ?c2))) = int (length as) + 1"
    by (simp add: contents_def)
  show ?thesis
  proof (cases "full c \<or> maxsize c < int (length as) + 1")
    case True
    then have cond: "full ?c2 \<or> maxsize ?c2 < int (card (dom (cache ?c2)))"
      using c1(8,9) card by simp
    have l2: "2 \<le> length (?n # as)" using ne by (cases as) simp_all
    obtain c' where c': "evict ?c2 = Inr c'" "ring (heap c') (butlast (?n # as))"
        "root c' = root ?c2" "full c'" "index_ok c' (butlast (?n # as))"
        "\<forall>b. item (heap c' b) = item (heap ?c2 b)" "fresh c' = fresh ?c2"
        "maxsize c' = maxsize ?c2"
      using evict_steps[OF r2 l2 io2 cond] by blast
    have bl: "butlast (?n # as) = ?n # butlast as" using ne by simp
    have leq: "int (length as) = maxsize c" using True m by auto
    have fb: "\<forall>a\<in>set (butlast as). a < Suc ?n"
      using f by (meson in_set_butlastD less_Suc_eq)
    have "lru_inv c' (?n # butlast as)"
      unfolding lru_inv_def using c' bl m c1(3,4,9) fb leq
      by auto
    moreover have "contents (heap c') (?n # butlast as) = butlast ((k, v) # contents (heap c) as)"
      using contents_cong[of "?n # as" "heap c'" "heap c1"] c'(6) ct bl contents_butlast[of "heap c'" "?n # as"]
      by simp
    ultimately show ?thesis using s c'(1,4,8) c1(9) True by auto
  next
    case False
    then have ev: "evict ?c2 = Inr ?c2" using c1(8,9) card by (simp add: evict_def)
    have "lru_inv ?c2 (?n # as)"
      unfolding lru_inv_def using r2 io2 m False c1(3,4,8,9) f by auto
    then show ?thesis using s ev ct False c1(8,9) by auto
  qed
qed

lemma relink_steps:
  assumes r: "ring (heap c) as" and hd: "hd as = root c" and a: "a \<in> set as" "a \<noteq> root c"
  shows "\<exists>c'. relink a c = Inr c' \<and> ring (heap c') (a # remove1 a as) \<and> root c' = a \<and>
           (\<forall>b. item (heap c' b) = item (heap c b)) \<and>
           cache c' = cache c \<and> full c' = full c \<and> maxsize c' = maxsize c \<and> fresh c' = fresh c"
proof -
  let ?h = "heap c" and ?as1 = "remove1 a as" and ?p = "cpred as a" and ?n = "csucc as a"
  from r have d: "distinct as" and ne: "as \<noteq> []" by (auto simp: ring_def)
  have ah: "a \<noteq> hd as" using a(2) hd by simp
  have g: "get1 ?h a = Inr ?n" "get0 ?h a = Inr ?p"
    using r a(1) by (simp_all add: get0_entry get1_entry ring_entry ring_prv ring_nxt)
  obtain h1 h2 where u: "set1 ?h ?p ?n = Inr h1" "get0 h1 a = Inr ?p" "get1 h1 a = Inr ?n"
      "set0 h1 ?n ?p = Inr h2" "ring h2 ?as1" "h2 a = ?h a" "\<forall>b. item (h2 b) = item (?h b)"
      "\<forall>b. is_entry (h2 b) = is_entry (?h b)"
    using unlink_steps[OF r a(1) ah] by blast
  have hd1: "hd ?as1 = root c" using ah hd by (simp add: hd_remove1)
  have ne1: "?as1 \<noteq> []" using ah ne by (rule remove1_nonempty)
  have na: "a \<notin> set ?as1" using d by simp
  have r1: "root c \<in> set ?as1" using hd1 ne1 by (metis hd_in_set)
  have g2: "get0 h2 (root c) = Inr (last ?as1)"
    using u(5) r1 ne1 hd1 by (simp add: get0_entry ring_entry ring_prv cpred_hd[symmetric])
  have ea: "is_entry (h2 a)" using u(8) r a(1) by (simp add: ring_entry)
  obtain h3 where h3: "set0 h2 a (last ?as1) = Inr h3" "prv (h3 a) = last ?as1"
      "\<forall>b. b \<noteq> a \<longrightarrow> h3 b = h2 b" "\<forall>b. item (h3 b) = item (h2 b)"
      "\<forall>b. is_entry (h3 b) = is_entry (h2 b)"
    using set0_frame[of h2 a "last ?as1"] ea by blast
  have ea3: "is_entry (h3 a)" using h3(5) ea by simp
  obtain h4 where h4: "set1 h3 a (root c) = Inr h4" "nxt (h4 a) = root c" "prv (h4 a) = prv (h3 a)"
      "\<forall>b. b \<noteq> a \<longrightarrow> h4 b = h3 b" "\<forall>b. item (h4 b) = item (h3 b)"
      "\<forall>b. is_entry (h4 b) = is_entry (h3 b)"
    using set1_frame[of h3 a "root c"] ea3 by blast
  have r4: "ring h4 ?as1" using na h3(3) h4(4) by (intro ring_frame[OF u(5)]) auto
  have hl: "is_entry (h4 a)" "prv (h4 a) = last ?as1" "nxt (h4 a) = hd ?as1"
    using h4 h3 ea3 hd1 by simp_all
  obtain h5 h6 where s: "get0 h4 (hd ?as1) = Inr (last ?as1)" "set1 h4 (last ?as1) a = Inr h5"
      "set0 h5 (hd ?as1) a = Inr h6" "ring h6 (a # ?as1)" "\<forall>b. item (h6 b) = item (h4 b)"
    using insert_steps[OF r4 na hl] by blast
  have "relink a c = Inr (c\<lparr>heap := h6, root := a\<rparr>)"
    using g u(1,2,3,4) g2 h3(1) h4(1) s(1,2,3) hd1 by (simp add: relink_def res_bind_def)
  moreover have "\<forall>b. item (h6 b) = item (?h b)" using s(5) h4(5) h3(4) u(7) by simp
  ultimately show ?thesis using s(4) by simp
qed

lemma index_ok_cong:
  "index_ok c as \<Longrightarrow> cache c' = cache c \<Longrightarrow> set as' = set as \<Longrightarrow>
   (\<forall>b. item (heap c' b) = item (heap c b)) \<Longrightarrow> index_ok c' as'"
  by (simp add: index_ok_def)

lemma contents_move:
  assumes "distinct as" "a \<in> set as" "inj_on (\<lambda>b. the (item (h b))) (set as)"
  shows "contents h (a # remove1 a as) = the (item (h a)) # remove1 (the (item (h a))) (contents h as)"
  using assms
proof (induction as)
  case Nil
  then show ?case by simp
next
  case (Cons x xs)
  show ?case
  proof (cases "x = a")
    case True
    then show ?thesis by (simp add: contents_def)
  next
    case False
    with Cons.prems have a: "a \<in> set xs" "distinct xs" "inj_on (\<lambda>b. the (item (h b))) (set xs)"
      by (auto simp: inj_on_def)
    have ne: "the (item (h x)) \<noteq> the (item (h a))"
      using Cons.prems False a(1) by (auto simp: inj_on_def)
    have "contents h (a # remove1 a xs) = the (item (h a)) # remove1 (the (item (h a))) (contents h xs)"
      using a by (intro Cons.IH)
    then show ?thesis using False ne by (simp add: contents_def)
  qed
qed

lemma succ_in_mid: "y \<notin> set xs \<Longrightarrow> succ_in d (xs @ y # z # zs) y = z"
  by (induction xs) auto

lemma walk_entry:
  "is_entry (h a) \<Longrightarrow> walk h a (Suc n) = the (item (h a)) # walk h (nxt (h a)) n"
  by (cases "h a") simp_all

lemma walk_ring:
  "ring h as \<Longrightarrow> as = xs @ ys \<Longrightarrow> ys \<noteq> [] \<Longrightarrow> walk h (hd ys) (length ys) = contents h ys"
proof (induction ys arbitrary: xs)
  case Nil
  then show ?case by simp
next
  case (Cons y ys)
  from Cons.prems have y: "y \<in> set as" and d: "distinct as" by (auto simp: ring_def)
  have e: "is_entry (h y)" "nxt (h y) = csucc as y"
    using Cons.prems(1) y by (simp_all add: ring_entry ring_nxt)
  show ?case
  proof (cases ys)
    case Nil
    then show ?thesis using e by (simp add: walk_entry contents_def del: walk.simps(2))
  next
    case (Cons z zs)
    have "y \<notin> set xs" using d Cons.prems(2) by auto
    then have "csucc as y = z"
      using Cons.prems(2) Cons by (simp add: csucc_def succ_in_mid)
    moreover have "walk h (hd ys) (length ys) = contents h ys"
      using Cons.prems(1) Cons.prems(2) Cons by (intro Cons.IH[of "xs @ [y]"]) simp_all
    ultimately show ?thesis using e Cons by (simp add: walk_entry contents_def del: walk.simps(2))
  qed
qed

lemma items_contents: "lru_inv c as \<Longrightarrow> items c = contents (heap c) as"
proof (cases "as = []")
  case True
  assume "lru_inv c as"
  then show ?thesis using True inv_len[of c as] by (simp add: items_def len_def contents_def)
next
  case False
  assume i: "lru_inv c as"
  then have "ring (heap c) as" "hd as = root c" using False by (simp_all add: lru_inv_def)
  then show ?thesis
    using walk_ring[of "heap c" as "[]" as] False inv_len[OF i] by (simp add: items_def len_def)
qed

lemma inv_keys_inj: "lru_inv c as \<Longrightarrow> inj_on (\<lambda>b. the (item (heap c b))) (set as)"
proof (rule inj_onI)
  fix a b assume i: "lru_inv c as" and ab: "a \<in> set as" "b \<in> set as"
    and eq: "the (item (heap c a)) = the (item (heap c b))"
  obtain k v where ka: "item (heap c a) = Some (k, v)"
    using ab(1) inv_entries[OF i] is_entry_item by blast
  obtain k' w where kb: "item (heap c b) = Some (k', w)"
    using ab(2) inv_entries[OF i] is_entry_item by blast
  have io: "index_ok c as" using i by (simp add: lru_inv_def)
  from eq ka kb have "k = k'" by simp
  then show "a = b" using index_keys_inj[OF io ab ka] kb by simp
qed

lemma set_item_inv:
  assumes i: "lru_inv c as"
  shows "\<exists>c' as'. set_item k v c = Inr c' \<and> lru_inv c' as' \<and> maxsize c' = maxsize c \<and>
           full c' = (full c \<or> k \<notin> fst ` set (contents (heap c) as) \<and>
                               maxsize c < int (length as) + 1) \<and>
           contents (heap c') as' =
             (if k \<in> fst ` set (contents (heap c) as) then contents (heap c) as
              else if full c \<or> maxsize c < int (length as) + 1
              then butlast ((k, v) # contents (heap c) as) else (k, v) # contents (heap c) as)"
proof -
  have io: "index_ok c as" using i by (simp add: lru_inv_def)
  have dom: "dom (cache c) = fst ` set (contents (heap c) as)"
    using io inv_entries[OF i] by (rule index_dom)
  show ?thesis
  proof (cases "cache c k")
    case (Some a)
    then have "k \<in> dom (cache c)" by auto
    then show ?thesis using i Some dom by (auto simp: set_item_def)
  next
    case None
    then have nk: "k \<notin> fst ` set (contents (heap c) as)" using dom by auto
    show ?thesis
    proof (cases "as = []")
      case True
      then have m: "\<not> full c" "0 < maxsize c" using i by (auto simp: lru_inv_def)
      obtain c' where c': "set_item k v c = Inr c'" "lru_inv c' [root c]"
          "contents (heap c') [root c] = [(k, v)]" "maxsize c' = maxsize c" "\<not> full c'"
        using set_item_empty[of c k v] i True by blast
      have "contents (heap c') [root c] =
             (if k \<in> fst ` set (contents (heap c) as) then contents (heap c) as
              else if full c \<or> maxsize c < int (length as) + 1
              then butlast ((k, v) # contents (heap c) as) else (k, v) # contents (heap c) as)"
        using c'(3) True m by (simp add: contents_def)
      moreover have "full c' = (full c \<or> k \<notin> fst ` set (contents (heap c) as) \<and>
                               maxsize c < int (length as) + 1)"
        using c'(5) m True by simp
      ultimately show ?thesis using c'(1,2,4) by blast
    next
      case False
      show ?thesis using set_item_nonempty[OF i False None, of v] nk by auto
    qed
  qed
qed

lemma get_item_inv:
  assumes i: "lru_inv c as"
  shows "\<exists>r c' as'. get_item k d c = Inr (r, c') \<and> lru_inv c' as' \<and> maxsize c' = maxsize c \<and>
           full c' = full c \<and>
           (case map_of (contents (heap c) as) k of
              None \<Rightarrow> r = d \<and> c' = c \<and> as' = as
            | Some v \<Rightarrow> r = Some v \<and>
                contents (heap c') as' = (k, v) # remove1 (k, v) (contents (heap c) as))"
proof -
  have io: "index_ok c as" using i by (simp add: lru_inv_def)
  have dom: "dom (cache c) = fst ` set (contents (heap c) as)"
    using io inv_entries[OF i] by (rule index_dom)
  have dk: "distinct (map fst (contents (heap c) as))"
    using io inv_entries[OF i] inv_distinct[OF i] by (rule contents_keys_distinct)
  show ?thesis
  proof (cases "cache c k")
    case None
    then have "k \<notin> fst ` set (contents (heap c) as)" using dom by auto
    then have "map_of (contents (heap c) as) k = None" by (simp add: map_of_eq_None_iff)
    then show ?thesis using None i by (auto simp: get_item_def)
  next
    case (Some a)
    then obtain v where a: "a \<in> set as" "item (heap c a) = Some (k, v)"
      using io by (auto simp: index_ok_def)
    then have "(k, v) \<in> set (contents (heap c) as)" by (force simp: contents_def)
    then have mo: "map_of (contents (heap c) as) k = Some v" using dk by simp
    have ne: "as \<noteq> []" using a(1) by auto
    then have r: "ring (heap c) as" "hd as = root c" using i by (simp_all add: lru_inv_def)
    show ?thesis
    proof (cases "a = root c")
      case True
      have g: "get_item k d c = Inr (Some v, c)"
        using Some True a(2) by (simp add: get_item_def res_bind_def get3_item)
      obtain ys where as: "as = a # ys" using ne r(2) True by (cases as) auto
      have "contents (heap c) as = (k, v) # remove1 (k, v) (contents (heap c) as)"
        using as a(2) by (simp add: contents_def)
      then show ?thesis using g i mo by auto
    next
      case False
      obtain c' where c': "relink a c = Inr c'" "ring (heap c') (a # remove1 a as)" "root c' = a"
          "\<forall>b. item (heap c' b) = item (heap c b)" "cache c' = cache c" "full c' = full c"
          "maxsize c' = maxsize c" "fresh c' = fresh c"
        using relink_steps[OF r a(1) False] by blast
      have g: "get_item k d c = Inr (Some v, c')"
        using Some False a(2) c'(1,4) by (simp add: get_item_def res_bind_def get3_item)
      have sa: "set (a # remove1 a as) = set as" using a(1) inv_distinct[OF i] by auto
      have la: "length (a # remove1 a as) = length as"
        using a(1) ne by (simp add: length_remove1)
      have io': "index_ok c' (a # remove1 a as)" using io c'(5) sa c'(4) by (rule index_ok_cong)
      have "lru_inv c' (a # remove1 a as)"
        unfolding lru_inv_def using i c' io' la sa a(1) by (auto simp: lru_inv_def)
      moreover have "contents (heap c') (a # remove1 a as) = (k, v) # remove1 (k, v) (contents (heap c) as)"
        using contents_move[OF inv_distinct[OF i] a(1) inv_keys_inj[OF i]] a(2)
          contents_cong[of "a # remove1 a as" "heap c'" "heap c"] c'(4) by simp
      ultimately show ?thesis using g mo c'(6,7) by auto
    qed
  qed
qed

lemma init_inv: "0 < m \<Longrightarrow> \<exists>c. init m = Inr c \<and> lru_inv c [] \<and> maxsize c = m \<and> \<not> full c"
  by (simp add: init_def lru_inv_def index_ok_def)

lemma run_ops_inv:
  "lru_inv c as \<Longrightarrow> \<exists>c' as'. run_ops ops c = Inr c' \<and> lru_inv c' as' \<and> maxsize c' = maxsize c"
proof (induction ops arbitrary: c as)
  case Nil
  then show ?case by auto
next
  case (Cons op ops)
  show ?case
  proof (cases op)
    case (Set k v)
    obtain c1 as1 where s: "set_item k v c = Inr c1" "lru_inv c1 as1" "maxsize c1 = maxsize c"
      using set_item_inv[OF Cons.prems, of k v] by blast
    obtain c' as' where "run_ops ops c1 = Inr c'" "lru_inv c' as'" "maxsize c' = maxsize c1"
      using Cons.IH[OF s(2)] by blast
    then show ?thesis using Set s by (auto simp: res_bind_def)
  next
    case (Get k)
    obtain r c1 as1 where s: "get_item k None c = Inr (r, c1)" "lru_inv c1 as1" "maxsize c1 = maxsize c"
      using get_item_inv[OF Cons.prems, of k None] by blast
    obtain c' as' where "run_ops ops c1 = Inr c'" "lru_inv c' as'" "maxsize c' = maxsize c1"
      using Cons.IH[OF s(2)] by blast
    then show ?thesis using Get s by (auto simp: res_bind_def)
  qed
qed

lemma run_inv:
  fixes ops :: "('k, 'v) cache_op list"
  shows "0 < m \<Longrightarrow> \<exists>c as. run m ops = Inr c \<and> lru_inv c as \<and> maxsize c = m"
proof -
  assume "0 < m"
  then obtain c0 :: "('k, 'v) lru_cache" where c0: "init m = Inr c0" "lru_inv c0 []" "maxsize c0 = m"
    using init_inv by blast
  then show ?thesis using run_ops_inv[OF c0(2), of ops] by (auto simp: run_def res_bind_def)
qed

lemma inv_observers:
  assumes i: "lru_inv c as"
  shows "len c = length (items c)" "dom (cache c) = fst ` set (items c)"
    "distinct (map fst (items c))" "int (len c) \<le> maxsize c"
    "full c \<longrightarrow> int (len c) = maxsize c" "contains c k \<longleftrightarrow> k \<in> fst ` set (items c)"
proof -
  have io: "index_ok c as" using i by (simp add: lru_inv_def)
  have ic: "items c = contents (heap c) as" using i by (rule items_contents)
  show 1: "len c = length (items c)" using inv_len[OF i] ic by (simp add: len_def contents_def)
  show 2: "dom (cache c) = fst ` set (items c)"
    using index_dom[OF io inv_entries[OF i]] ic by simp
  show "distinct (map fst (items c))"
    using contents_keys_distinct[OF io inv_entries[OF i] inv_distinct[OF i]] ic by simp
  have l: "len c = length as" using inv_len[OF i] by (simp add: len_def)
  show "int (len c) \<le> maxsize c" using i l by (simp add: lru_inv_def)
  show "full c \<longrightarrow> int (len c) = maxsize c" using i l by (simp add: lru_inv_def)
  show "contains c k \<longleftrightarrow> k \<in> fst ` set (items c)" using 2 by (simp add: contains_def)
qed

lemma set_item_items:
  assumes i: "lru_inv c as"
  shows "\<exists>c' as'. set_item k v c = Inr c' \<and> lru_inv c' as' \<and> maxsize c' = maxsize c \<and>
           full c' = (full c \<or> \<not> contains c k \<and> maxsize c < int (len c) + 1) \<and>
           items c' =
             (if contains c k then items c
              else if full c \<or> maxsize c < int (len c) + 1
              then butlast ((k, v) # items c) else (k, v) # items c)"
proof -
  obtain c' as' where s: "set_item k v c = Inr c'" "lru_inv c' as'" "maxsize c' = maxsize c"
      "full c' = (full c \<or> k \<notin> fst ` set (contents (heap c) as) \<and>
                               maxsize c < int (length as) + 1)"
      "contents (heap c') as' =
             (if k \<in> fst ` set (contents (heap c) as) then contents (heap c) as
              else if full c \<or> maxsize c < int (length as) + 1
              then butlast ((k, v) # contents (heap c) as) else (k, v) # contents (heap c) as)"
    using set_item_inv[OF i, of k v] by blast
  have ic: "contents (heap c) as = items c" "contents (heap c') as' = items c'"
    using i s(2) by (simp_all add: items_contents)
  have l: "length as = len c" using inv_len[OF i] by (simp add: len_def)
  have ck: "contains c k \<longleftrightarrow> k \<in> fst ` set (items c)" using i by (rule inv_observers)
  show ?thesis using s(1,2,3) s(4,5)[unfolded ic l ck[symmetric]] by blast
qed

lemma get_item_items:
  assumes i: "lru_inv c as"
  shows "\<exists>r c' as'. get_item k d c = Inr (r, c') \<and> lru_inv c' as' \<and> maxsize c' = maxsize c \<and>
           full c' = full c \<and>
           (case map_of (items c) k of
              None \<Rightarrow> r = d \<and> c' = c
            | Some v \<Rightarrow> r = Some v \<and> items c' = (k, v) # remove1 (k, v) (items c))"
proof -
  obtain r c' as' where s: "get_item k d c = Inr (r, c')" "lru_inv c' as'" "maxsize c' = maxsize c"
      "full c' = full c"
      "case map_of (contents (heap c) as) k of
              None \<Rightarrow> r = d \<and> c' = c \<and> as' = as
            | Some v \<Rightarrow> r = Some v \<and>
                contents (heap c') as' = (k, v) # remove1 (k, v) (contents (heap c) as)"
    using get_item_inv[OF i, of k d] by blast
  have ic: "contents (heap c) as = items c" "contents (heap c') as' = items c'"
    using i s(2) by (simp_all add: items_contents)
  have "case map_of (items c) k of
              None \<Rightarrow> r = d \<and> c' = c
            | Some v \<Rightarrow> r = Some v \<and> items c' = (k, v) # remove1 (k, v) (items c)"
    using s(5)[unfolded ic] by (auto split: option.splits)
  then show ?thesis using s(1,2,3,4) by blast
qed

lemma oldest_entry:
  assumes i: "lru_inv c as" and ne: "items c \<noteq> []"
  shows "\<exists>l. get0 (heap c) (root c) = Inr l \<and> get2 (heap c) l = Inr (fst (last (items c)))"
proof -
  have ic: "items c = contents (heap c) as" using i by (rule items_contents)
  then have an: "as \<noteq> []" using ne by (auto simp: contents_def)
  then have r: "ring (heap c) as" "hd as = root c" using i by (simp_all add: lru_inv_def)
  have ra: "root c \<in> set as" "last as \<in> set as" using an r(2) hd_in_set[OF an] by auto
  have g: "get0 (heap c) (root c) = Inr (last as)"
    using r ra an by (simp add: get0_entry ring_entry ring_prv cpred_hd[symmetric])
  obtain k v where kv: "item (heap c (last as)) = Some (k, v)"
    using ring_entry[OF r(1) ra(2)] is_entry_item by blast
  have "last (items c) = the (item (heap c (last as)))"
    using ic an by (simp add: contents_def last_map)
  then show ?thesis using g kv by (simp add: get2_item)
qed

lemma newest_entry:
  assumes i: "lru_inv c as" and ne: "items c \<noteq> []"
  shows "get2 (heap c) (root c) = Inr (fst (hd (items c)))"
proof -
  have ic: "items c = contents (heap c) as" using i by (rule items_contents)
  then have an: "as \<noteq> []" using ne by (auto simp: contents_def)
  then have r: "ring (heap c) as" "hd as = root c" using i by (simp_all add: lru_inv_def)
  have ra: "root c \<in> set as" using an r(2) hd_in_set[OF an] by auto
  obtain k v where kv: "item (heap c (root c)) = Some (k, v)"
    using ring_entry[OF r(1) ra] is_entry_item by blast
  have "hd (items c) = the (item (heap c (root c)))"
    using ic an r(2) by (simp add: contents_def hd_map)
  then show ?thesis using kv by (simp add: get2_item)
qed

lemma remdups_snoc: "remdups (tr @ [k]) = removeAll k (remdups tr) @ [k]"
  by (induction tr) auto

lemma recency_snoc: "recency (tr @ [k]) = k # removeAll k (recency tr)"
  by (simp add: recency_def remdups_snoc removeAll_filter_not_eq rev_filter)

lemma recency_distinct: "distinct (recency tr)"
  by (simp add: recency_def)

lemma recency_set: "set (recency tr) = set tr"
  by (simp add: recency_def)

lemma last_use_snoc: "last_use (tr @ [k]) x = (if x = k then Suc (length tr) else last_use tr x)"
  by (simp add: last_use_def)

lemma last_use_le: "last_use tr x \<le> length tr"
  using length_dropWhile_le[of "\<lambda>y. y \<noteq> x" "rev tr"] by (simp add: last_use_def)

lemma last_use_pos: "x \<in> set tr \<Longrightarrow> 0 < last_use tr x"
proof -
  assume "x \<in> set tr"
  then have "x \<in> set (rev tr)" by simp
  then have "dropWhile (\<lambda>y. y \<noteq> x) (rev tr) \<noteq> []" by (simp add: dropWhile_eq_Nil_conv)
  then show ?thesis by (simp add: last_use_def)
qed

lemma recency_sorted: "sorted_wrt (\<lambda>a b. last_use tr b < last_use tr a) (recency tr)"
proof (induction tr rule: rev_induct)
  case Nil
  show ?case by (simp add: recency_def)
next
  case (snoc k tr)
  let ?R = "\<lambda>a b. last_use tr b < last_use tr a"
  let ?R' = "\<lambda>a b. last_use (tr @ [k]) b < last_use (tr @ [k]) a"
  have f: "sorted_wrt ?R (removeAll k (recency tr))"
    using snoc.IH by (simp add: removeAll_filter_not_eq sorted_wrt_filter)
  have "sorted_wrt ?R' (removeAll k (recency tr))"
    by (rule sorted_wrt_mono_rel[OF _ f]) (simp add: last_use_snoc)
  moreover have "\<forall>y \<in> set (removeAll k (recency tr)). ?R' k y"
    using last_use_le[of tr] by (auto simp: last_use_snoc less_Suc_eq_le)
  ultimately show ?case by (simp add: recency_snoc)
qed

lemma sorted_wrt_last:
  "sorted_wrt R xs \<Longrightarrow> xs \<noteq> [] \<Longrightarrow> x \<in> set xs \<Longrightarrow> x \<noteq> last xs \<Longrightarrow> R x (last xs)"
proof -
  assume s: "sorted_wrt R xs" and ne: "xs \<noteq> []" and x: "x \<in> set xs" "x \<noteq> last xs"
  have sp: "xs = butlast xs @ [last xs]" using ne by simp
  then have "sorted_wrt R (butlast xs @ [last xs])" using s by simp
  then have a: "\<forall>y \<in> set (butlast xs). R y (last xs)" by (simp add: sorted_wrt_append)
  have "set xs = insert (last xs) (set (butlast xs))"
    using sp by (metis Un_insert_right list.simps(15) set_append sup_bot.right_neutral list.set(1))
  then have "x \<in> set (butlast xs)" using x by auto
  then show ?thesis using a by blast
qed

lemma filter_recency_snoc:
  "P k \<Longrightarrow> filter P (recency (tr @ [k])) = k # filter (\<lambda>x. P x \<and> x \<noteq> k) (recency tr)"
proof -
  have "(\<lambda>x. x \<noteq> k \<and> P x) = (\<lambda>x. P x \<and> x \<noteq> k)" by auto
  then show "P k \<Longrightarrow> ?thesis"
    by (simp add: recency_snoc removeAll_filter_not_eq eq_commute[of k])
qed

lemma butlast_distinct_filter:
  "distinct ks \<Longrightarrow> ks \<noteq> [] \<Longrightarrow> butlast ks = filter (\<lambda>x. x \<noteq> last ks) ks"
proof -
  assume d: "distinct ks" and ne: "ks \<noteq> []"
  have sp: "ks = butlast ks @ [last ks]" using ne by simp
  then have "distinct (butlast ks @ [last ks])" using d by simp
  then have n: "last ks \<notin> set (butlast ks)" by simp
  have "filter (\<lambda>x. x \<noteq> last ks) (butlast ks @ [last ks]) = butlast ks"
    using n by (simp add: filter_id_conv) blast
  then show ?thesis using sp by simp
qed

lemma map_fst_remove1:
  "distinct (map fst xs) \<Longrightarrow> (k, v) \<in> set xs \<Longrightarrow>
   map fst (remove1 (k, v) xs) = filter (\<lambda>x. x \<noteq> k) (map fst xs)"
proof (induction xs)
  case Nil
  then show ?case by simp
next
  case (Cons a xs)
  show ?case
  proof (cases "a = (k, v)")
    case True
    then have "k \<notin> fst ` set xs" using Cons.prems(1) by simp
    then have "filter (\<lambda>x. x \<noteq> k) (map fst xs) = map fst xs"
      by (simp add: filter_id_conv) blast
    then show ?thesis using True by simp
  next
    case False
    then have i: "(k, v) \<in> set xs" using Cons.prems(2) by simp
    then have "k \<in> fst ` set xs" by force
    then have "fst a \<noteq> k" using Cons.prems(1) by auto
    then show ?thesis using False Cons.IH i Cons.prems(1) by simp
  qed
qed

lemma set_item_recency:
  assumes i: "lru_inv c as" and m: "0 < maxsize c"
    and o: "map fst (items c) = filter (contains c) (recency tr)"
  shows "\<exists>c' as'. set_item k v c = Inr c' \<and> lru_inv c' as' \<and> maxsize c' = maxsize c \<and>
           map fst (items c') =
             filter (contains c') (recency (tr @ (if contains c k then [] else [k])))"
proof -
  obtain c' as' where s: "set_item k v c = Inr c'" "lru_inv c' as'" "maxsize c' = maxsize c"
      "items c' = (if contains c k then items c
              else if full c \<or> maxsize c < int (len c) + 1
              then butlast ((k, v) # items c) else (k, v) # items c)"
    using set_item_items[OF i, of k v] by blast
  note ob = inv_observers[OF i] and ob' = inv_observers[OF s(2)]
  define ks where "ks = map fst (items c)"
  define ks' where "ks' = map fst (items c')"
  have P: "\<And>x. contains c x \<longleftrightarrow> x \<in> set ks" using ob(6) by (simp add: ks_def)
  have P': "\<And>x. contains c' x \<longleftrightarrow> x \<in> set ks'" using ob'(6) by (simp add: ks'_def)
  have d: "distinct ks" using ob(3) by (simp add: ks_def)
  have o': "ks = filter (contains c) (recency tr)" using o by (simp add: ks_def)
  have "ks' = filter (contains c') (recency (tr @ (if contains c k then [] else [k])))"
  proof (cases "contains c k")
    case True
    then have "ks' = ks" using s(4) by (simp add: ks_def ks'_def)
    then have "contains c' = contains c" using P P' by auto
    then show ?thesis using True o' \<open>ks' = ks\<close> by simp
  next
    case nk: False
    then have kn: "k \<notin> set ks" using P by simp
    show ?thesis
    proof (cases "full c \<or> maxsize c < int (len c) + 1")
      case ev: True
      then have "items c \<noteq> []" using ob(1,4,5) m by auto
      then have ne: "ks \<noteq> []" by (simp add: ks_def)
      have "items c' = (k, v) # butlast (items c)" using s(4) nk ev \<open>items c \<noteq> []\<close> by simp
      then have k': "ks' = k # butlast ks" by (simp add: ks_def ks'_def map_butlast)
      have bl: "butlast ks = filter (\<lambda>x. x \<noteq> last ks) ks"
        using d ne by (rule butlast_distinct_filter)
      have "\<And>x. (contains c' x \<and> x \<noteq> k) = (contains c x \<and> x \<noteq> last ks)"
      proof -
        fix x
        have "contains c' x \<and> x \<noteq> k \<longleftrightarrow> x \<in> set (butlast ks) \<and> x \<noteq> k"
          using P' k' by auto
        also have "\<dots> \<longleftrightarrow> x \<in> set (butlast ks)" using kn in_set_butlastD by fastforce
        also have "\<dots> \<longleftrightarrow> x \<in> set ks \<and> x \<noteq> last ks" by (subst bl) auto
        finally show "(contains c' x \<and> x \<noteq> k) = (contains c x \<and> x \<noteq> last ks)"
          using P by simp
      qed
      then have "filter (\<lambda>x. contains c' x \<and> x \<noteq> k) (recency tr) =
          filter (\<lambda>x. contains c x \<and> x \<noteq> last ks) (recency tr)" by simp
      also have "\<dots> = filter (\<lambda>x. x \<noteq> last ks) ks"
        by (simp add: o' conj_commute)
      finally have "filter (\<lambda>x. contains c' x \<and> x \<noteq> k) (recency tr) = butlast ks"
        using bl by simp
      moreover have "contains c' k" using P' k' by simp
      ultimately show ?thesis using nk k' by (simp add: filter_recency_snoc)
    next
      case ev: False
      have "items c' = (k, v) # items c" using s(4) nk ev by simp
      then have k': "ks' = k # ks" by (simp add: ks_def ks'_def)
      have "\<And>x. (contains c' x \<and> x \<noteq> k) = contains c x"
        using P P' k' kn by auto
      then have "filter (\<lambda>x. contains c' x \<and> x \<noteq> k) (recency tr) = ks"
        using o' by simp
      moreover have "contains c' k" using P' k' by simp
      ultimately show ?thesis using nk k' by (simp add: filter_recency_snoc)
    qed
  qed
  then show ?thesis using s(1,2,3) by (auto simp: ks'_def)
qed

lemma get_item_recency:
  assumes i: "lru_inv c as"
    and o: "map fst (items c) = filter (contains c) (recency tr)"
  shows "\<exists>r c' as'. get_item k dflt c = Inr (r, c') \<and> lru_inv c' as' \<and> maxsize c' = maxsize c \<and>
           map fst (items c') =
             filter (contains c') (recency (tr @ (if contains c k then [k] else [])))"
proof -
  obtain r c' as' where s: "get_item k dflt c = Inr (r, c')" "lru_inv c' as'"
      "maxsize c' = maxsize c"
      "case map_of (items c) k of
              None \<Rightarrow> r = dflt \<and> c' = c
            | Some v \<Rightarrow> r = Some v \<and> items c' = (k, v) # remove1 (k, v) (items c)"
    using get_item_items[OF i, of k dflt] by blast
  note ob = inv_observers[OF i] and ob' = inv_observers[OF s(2)]
  define ks where "ks = map fst (items c)"
  define ks' where "ks' = map fst (items c')"
  have P: "\<And>x. contains c x \<longleftrightarrow> x \<in> set ks" using ob(6) by (simp add: ks_def)
  have P': "\<And>x. contains c' x \<longleftrightarrow> x \<in> set ks'" using ob'(6) by (simp add: ks'_def)
  have d: "distinct ks" using ob(3) by (simp add: ks_def)
  have o': "ks = filter (contains c) (recency tr)" using o by (simp add: ks_def)
  have "ks' = filter (contains c') (recency (tr @ (if contains c k then [k] else [])))"
  proof (cases "map_of (items c) k")
    case None
    then have "k \<notin> fst ` set (items c)" by (simp add: map_of_eq_None_iff)
    then have "\<not> contains c k" using ob(6) by simp
    moreover have "c' = c" using s(4) None by simp
    ultimately show ?thesis using o' by (simp add: ks_def ks'_def)
  next
    case (Some v)
    then have mem: "(k, v) \<in> set (items c)" by (rule map_of_SomeD)
    then have kin: "k \<in> set ks" by (force simp: ks_def)
    then have ck: "contains c k" using P by simp
    have "items c' = (k, v) # remove1 (k, v) (items c)" using s(4) Some by simp
    then have k': "ks' = k # filter (\<lambda>x. x \<noteq> k) ks"
      using map_fst_remove1[OF ob(3) mem] by (simp add: ks_def ks'_def)
    then have "set ks' = set ks" using kin by auto
    then have e: "\<And>x. contains c' x = contains c x" using P P' by simp
    have "filter (\<lambda>x. contains c' x \<and> x \<noteq> k) (recency tr) = filter (\<lambda>x. x \<noteq> k) ks"
      by (simp add: e o' conj_commute)
    moreover have "contains c' k" using e ck by simp
    ultimately show ?thesis using ck k' by (simp add: filter_recency_snoc)
  qed
  then show ?thesis using s(1,2,3) by (auto simp: ks'_def)
qed

lemma run_ops_recency:
  assumes "lru_inv c as" and "0 < maxsize c"
    and "map fst (items c) = filter (contains c) (recency tr)"
  shows "\<exists>c' as'. run_ops ops c = Inr c' \<and> lru_inv c' as' \<and> maxsize c' = maxsize c \<and>
           map fst (items c') = filter (contains c') (recency (tr @ use_trace ops c))"
  using assms
proof (induction ops arbitrary: c as tr)
  case Nil
  then show ?case by auto
next
  case (Cons op ops)
  show ?case
  proof (cases op)
    case (Set k v)
    define u where "u = (if contains c k then [] else [k])"
    obtain c1 as1 where s: "set_item k v c = Inr c1" "lru_inv c1 as1" "maxsize c1 = maxsize c"
        "map fst (items c1) = filter (contains c1) (recency (tr @ u))"
      using set_item_recency[OF Cons.prems, of k v] unfolding u_def by blast
    have m1: "0 < maxsize c1" using s(3) Cons.prems(2) by simp
    obtain c' as' where r: "run_ops ops c1 = Inr c'" "lru_inv c' as'" "maxsize c' = maxsize c1"
        "map fst (items c') = filter (contains c') (recency ((tr @ u) @ use_trace ops c1))"
      using Cons.IH[OF s(2) m1 s(4)] by blast
    have "use_trace (op # ops) c = u @ use_trace ops c1" using Set s(1) by (simp add: u_def)
    then show ?thesis using Set s(1,3) r by (auto simp: res_bind_def)
  next
    case (Get k)
    define u where "u = (if contains c k then [k] else [])"
    obtain r0 c1 as1 where s: "get_item k None c = Inr (r0, c1)" "lru_inv c1 as1"
        "maxsize c1 = maxsize c"
        "map fst (items c1) = filter (contains c1) (recency (tr @ u))"
      using get_item_recency[OF Cons.prems(1,3), of k None] unfolding u_def by blast
    have m1: "0 < maxsize c1" using s(3) Cons.prems(2) by simp
    obtain c' as' where r: "run_ops ops c1 = Inr c'" "lru_inv c' as'" "maxsize c' = maxsize c1"
        "map fst (items c') = filter (contains c') (recency ((tr @ u) @ use_trace ops c1))"
      using Cons.IH[OF s(2) m1 s(4)] by blast
    have "use_trace (op # ops) c = u @ use_trace ops c1" using Get s(1) by (simp add: u_def)
    then show ?thesis using Get s(1,3) r by (auto simp: res_bind_def)
  qed
qed

lemma run_recency:
  fixes ops :: "('k, 'v) cache_op list"
  assumes m: "0 < m"
  shows "\<exists>c as. run m ops = Inr c \<and> lru_inv c as \<and> maxsize c = m \<and>
           map fst (items c) = filter (contains c) (recency (uses m ops))"
proof -
  obtain c0 :: "('k, 'v) lru_cache" where c0: "init m = Inr c0" "lru_inv c0 []" "maxsize c0 = m"
    using init_inv[OF m] by blast
  have e: "items c0 = []" using inv_observers(1)[OF c0(2)] items_contents[OF c0(2)]
    by (simp add: contents_def)
  have "map fst (items c0) = filter (contains c0) (recency [])"
    by (simp add: e recency_def)
  then obtain c' as' where "run_ops ops c0 = Inr c'" "lru_inv c' as'" "maxsize c' = maxsize c0"
      "map fst (items c') = filter (contains c') (recency ([] @ use_trace ops c0))"
    using run_ops_recency[OF c0(2), of "[]" ops] c0(3) m by blast
  then show ?thesis using c0 by (auto simp: run_def res_bind_def uses_def)
qed

text \<open>
  C1, as the specification states it: \<^verbatim>\<open>set(k, v)\<close> and then \<^verbatim>\<open>get(k)\<close> returns \<open>v\<close>,
  also when \<open>k\<close> was present with another value. On a cache of capacity 2 that holds
  key 1 with value 10, \<^verbatim>\<open>set(1, 20)\<close> and then \<^verbatim>\<open>get(1)\<close> returns 10: \<^verbatim>\<open>set\<close> does nothing
  under its guard \<^verbatim>\<open>if link is None\<close> when the key is present.
\<close>

theorem set_existing_key_keeps_value:
  "map_sum id fst (res_bind (run 2 [Set (1::nat) (10::nat)]) (set_then_get 1 20)) = Inr (Some 10)"
  by (simp add: cache_eval set_then_get_def)

lemma map_of_hd: "map_of ((k, v) # xs) k = Some v"
  by simp

lemma map_of_present:
  "distinct (map fst xs) \<Longrightarrow> k \<in> fst ` set xs \<Longrightarrow> \<exists>w. map_of xs k = Some w \<and> (k, w) \<in> set xs"
  by (metis (no_types, opaque_lifting) domD dom_map_of_conv_image_fst map_of_SomeD)

text \<open>
  C1, amended. On every cache reached from a constructor with positive capacity by
  \<^verbatim>\<open>set\<close> and \<^verbatim>\<open>get\<close> calls, \<^verbatim>\<open>set(k, v)\<close> and then \<^verbatim>\<open>get(k)\<close> raise nothing and
  return \<open>v\<close> when \<open>k\<close> was absent, and the value already stored under \<open>k\<close> when it
  was present (then \<^verbatim>\<open>set\<close> leaves the cache as it is); afterwards \<open>k\<close> is the
  most-recently-used key: its entry is the root, the first of \<open>items\<close>.
\<close>

theorem set_then_get_returns:
  fixes ops :: "('k, 'v) cache_op list"
  assumes m: "0 < m"
  shows "\<exists>c x c'. run m ops = Inr c \<and> set_then_get k v c = Inr (Some x, c') \<and>
           x = (case map_of (items c) k of None \<Rightarrow> v | Some w \<Rightarrow> w) \<and>
           items c' \<noteq> [] \<and> hd (items c') = (k, x) \<and> get2 (heap c') (root c') = Inr k \<and>
           (contains c k \<longrightarrow> set_item k v c = Inr c)"
proof -
  obtain c :: "('k, 'v) lru_cache" and as where c: "run m ops = Inr c" "lru_inv c as" "maxsize c = m"
    using run_inv[OF m] by blast
  note ob = inv_observers[OF c(2)]
  obtain c1 as1 where c1: "set_item k v c = Inr c1" "lru_inv c1 as1"
      "items c1 = (if contains c k then items c
              else if full c \<or> maxsize c < int (len c) + 1
              then butlast ((k, v) # items c) else (k, v) # items c)"
    using set_item_items[OF c(2), of k v] by blast
  define x where "x = (case map_of (items c) k of None \<Rightarrow> v | Some w \<Rightarrow> w)"
  have same: "contains c k \<longrightarrow> set_item k v c = Inr c"
    by (auto simp: contains_def set_item_def)
  have mo: "map_of (items c1) k = Some x"
  proof (cases "contains c k")
    case True
    then obtain w where "map_of (items c) k = Some w"
      using map_of_present[OF ob(3), of k] ob(6) by blast
    then show ?thesis using True c1(3) by (simp add: x_def)
  next
    case False
    then have n: "map_of (items c) k = None" using ob(6) by (simp add: map_of_eq_None_iff)
    show ?thesis
    proof (cases "full c \<or> maxsize c < int (len c) + 1")
      case ev: True
      then have "items c \<noteq> []" using ob(1,4,5) c(3) m by auto
      then have "butlast ((k, v) # items c) = (k, v) # butlast (items c)" by simp
      then show ?thesis using False ev c1(3) n by (simp add: x_def)
    next
      case ev: False
      then show ?thesis using False c1(3) n by (simp add: x_def)
    qed
  qed
  obtain r c' as' where g: "get_item k None c1 = Inr (r, c')" "lru_inv c' as'"
      "case map_of (items c1) k of
              None \<Rightarrow> r = None \<and> c' = c1
            | Some v \<Rightarrow> r = Some v \<and> items c' = (k, v) # remove1 (k, v) (items c1)"
    using get_item_items[OF c1(2), of k None] by blast
  from g(3) mo have r: "r = Some x" "items c' = (k, x) # remove1 (k, x) (items c1)" by simp_all
  have "set_then_get k v c = Inr (Some x, c')"
    using c1(1) g(1) r(1) by (simp add: set_then_get_def res_bind_def)
  moreover have "get2 (heap c') (root c') = Inr k"
    using newest_entry[OF g(2)] r(2) by simp
  ultimately show ?thesis using c(1) r(2) same x_def by auto
qed

theorem set_then_get_returns_witness:
  "(0::int) < 2 \<and>
   (\<exists>c x c'. run 2 [Set (1::nat) (10::nat)] = Inr c \<and> set_then_get 1 20 c = Inr (Some x, c') \<and>
      x = (case map_of (items c) 1 of None \<Rightarrow> 20 | Some w \<Rightarrow> w) \<and>
      items c' \<noteq> [] \<and> hd (items c') = (1, x) \<and> get2 (heap c') (root c') = Inr 1 \<and>
      contains c 1 \<and> set_item 1 20 c = Inr c)"
proof -
  have h: "(0::int) < 2" by simp
  have "contains c 1" if "run 2 [Set (1::nat) (10::nat)] = Inr c" for c
    using that by (auto simp: cache_eval)
  then show ?thesis
    using h set_then_get_returns [OF h, of "[Set (1::nat) (10::nat)]" 1 20] by fastforce
qed

text \<open>
  C2, as the specification states it: for every cache, a \<^verbatim>\<open>set\<close> of a new key on a full
  cache evicts exactly the least recently used entry before it returns, where \<^verbatim>\<open>set\<close>
  marks its key most recently used. With capacity 0 the cache is full and empty after
  \<^verbatim>\<open>set(1,1)\<close>, and \<^verbatim>\<open>set(2,2)\<close> then raises KeyError instead of returning. With capacity
  2, after \<^verbatim>\<open>set(1,1); set(2,2); set(1,9)\<close> the call \<^verbatim>\<open>set(3,3)\<close> evicts key 1, the key of
  the latest \<^verbatim>\<open>set\<close> call, and keeps key 2: a \<^verbatim>\<open>set\<close> of a present key does not renew it.
\<close>

theorem set_new_key_eviction_fails:
  "map_sum id (\<lambda>c. (full c, contains c 2)) (run 0 [Set (1::nat) (1::nat)]) = Inr (True, False) \<and>
   map_sum id len (run 0 [Set (1::nat) (1::nat), Set 2 2]) = Inl KeyError \<and>
   map_sum id (\<lambda>c. (contains c 1, contains c 2, contains c 3))
     (run 2 [Set (1::nat) (1::nat), Set 2 2, Set 1 9, Set 3 3]) = Inr (False, True, True)"
  by (simp add: cache_eval)

text \<open>
  C2, amended. On every cache reached with positive capacity by \<^verbatim>\<open>set\<close> and \<^verbatim>\<open>get\<close> calls,
  the entries are in the order of their last use, the most recent first, where a use of
  a key is a \<^verbatim>\<open>set\<close> that inserts it or a \<^verbatim>\<open>get\<close> that finds it. A \<^verbatim>\<open>set\<close> of a new key
  while the cache is full (the flag is set, or the size with the new key would exceed
  \<^verbatim>\<open>maxsize\<close>) succeeds and evicts exactly one entry, the least recently used one: its
  key has been used, and every other key of the cache has been used later. It is the
  entry before the root (\<^verbatim>\<open>root[0]\<close>), the last of \<open>items\<close>. All other keys stay, in
  their order, behind the new entry. And with capacity 2,
  \<^verbatim>\<open>set(a,1); set(b,2); get(a); set(c,3)\<close> leaves \<open>a\<close> and \<open>c\<close> contained and \<open>b\<close> not.
\<close>

theorem set_new_key_evicts_lru:
  fixes ops :: "('k, 'v) cache_op list"
  shows "(0 < m \<longrightarrow>
     (\<exists>c. run m ops = Inr c \<and>
        map fst (items c) = filter (contains c) (recency (uses m ops)) \<and>
        (\<not> contains c k \<and> (full c \<or> maxsize c < int (len c) + 1) \<longrightarrow>
           (\<exists>c' l lk. set_item k v c = Inr c' \<and>
              get0 (heap c) (root c) = Inr l \<and> get2 (heap c) l = Inr lk \<and>
              contains c lk \<and> lk \<noteq> k \<and>
              0 < last_use (uses m ops) lk \<and>
              (\<forall>k'. contains c k' \<and> k' \<noteq> lk \<longrightarrow>
                 last_use (uses m ops) lk < last_use (uses m ops) k') \<and>
              (\<forall>k'. contains c' k' \<longleftrightarrow> k' = k \<or> contains c k' \<and> k' \<noteq> lk) \<and>
              items c' = (k, v) # butlast (items c) \<and> len c' = len c \<and> full c')))) \<and>
   (a \<noteq> b \<and> a \<noteq> c \<and> b \<noteq> c \<longrightarrow>
     (\<exists>s. run 2 [Set a v1, Set b v2, Get a, Set c v3] = Inr s \<and>
        contains s a \<and> contains s c \<and> \<not> contains s b))"
proof (intro conjI impI)
  assume m: "0 < m"
  obtain c :: "('k, 'v) lru_cache" and as where c: "run m ops = Inr c" "lru_inv c as" "maxsize c = m"
      "map fst (items c) = filter (contains c) (recency (uses m ops))"
    using run_recency[OF m] by blast
  note ob = inv_observers[OF c(2)]
  define tr where "tr = uses m ops"
  have "\<exists>c' l lk. set_item k v c = Inr c' \<and>
              get0 (heap c) (root c) = Inr l \<and> get2 (heap c) l = Inr lk \<and>
              contains c lk \<and> lk \<noteq> k \<and>
              0 < last_use tr lk \<and>
              (\<forall>k'. contains c k' \<and> k' \<noteq> lk \<longrightarrow> last_use tr lk < last_use tr k') \<and>
              (\<forall>k'. contains c' k' \<longleftrightarrow> k' = k \<or> contains c k' \<and> k' \<noteq> lk) \<and>
              items c' = (k, v) # butlast (items c) \<and> len c' = len c \<and> full c'"
    if nk: "\<not> contains c k" and ev: "full c \<or> maxsize c < int (len c) + 1"
  proof -
    obtain c' as' where c': "set_item k v c = Inr c'" "lru_inv c' as'"
        "full c' = (full c \<or> \<not> contains c k \<and> maxsize c < int (len c) + 1)"
        "items c' = (if contains c k then items c
              else if full c \<or> maxsize c < int (len c) + 1
              then butlast ((k, v) # items c) else (k, v) # items c)"
      using set_item_items[OF c(2), of k v] by blast
    note ob' = inv_observers[OF c'(2)]
    have ne: "items c \<noteq> []" using ev ob(1,4,5) c(3) m by auto
    then have it: "items c' = (k, v) # butlast (items c)" using c'(4) nk ev by simp
    obtain l where l: "get0 (heap c) (root c) = Inr l"
        "get2 (heap c) l = Inr (fst (last (items c)))"
      using oldest_entry[OF c(2) ne] by blast
    let ?lk = "fst (last (items c))"
    have lin: "?lk \<in> fst ` set (items c)" using ne by simp
    then have clk: "contains c ?lk" using ob(6) by simp
    then have lne: "?lk \<noteq> k" using nk by auto
    define ks where "ks = map fst (items c)"
    have kne: "ks \<noteq> []" and lks: "?lk = last ks" using ne by (simp_all add: ks_def last_map)
    have ko: "ks = filter (contains c) (recency tr)" using c(4) by (simp add: ks_def tr_def)
    have so: "sorted_wrt (\<lambda>a b. last_use tr b < last_use tr a) ks"
      unfolding ko by (rule sorted_wrt_filter) (rule recency_sorted)
    have "?lk \<in> set ks" using lks kne by simp
    then have "?lk \<in> set tr" using ko recency_set[of tr] by auto
    then have used: "0 < last_use tr ?lk" by (rule last_use_pos)
    have later: "\<forall>k'. contains c k' \<and> k' \<noteq> ?lk \<longrightarrow> last_use tr ?lk < last_use tr k'"
    proof (intro allI impI)
      fix k' assume a: "contains c k' \<and> k' \<noteq> ?lk"
      then have "k' \<in> set ks" using ob(6) by (simp add: ks_def)
      moreover have "k' \<noteq> last ks" using a lks by simp
      ultimately have "last_use tr (last ks) < last_use tr k'"
        using sorted_wrt_last[OF so kne] by blast
      then show "last_use tr ?lk < last_use tr k'" using lks by simp
    qed
    define B where "B = fst ` set (butlast (items c))"
    have sp: "items c = butlast (items c) @ [last (items c)]" using ne by simp
    then have "distinct (map fst (butlast (items c)) @ [?lk])"
      using ob(3) by (metis map_append list.simps(8,9))
    then have nb: "?lk \<notin> B" by (simp add: B_def)
    have "set (items c) = insert (last (items c)) (set (butlast (items c)))"
      using sp by (metis Un_insert_right list.simps(15) set_append sup_bot.right_neutral list.set(1))
    then have old: "fst ` set (items c) = insert ?lk B" by (simp add: B_def)
    have new: "fst ` set (items c') = insert k B" using it by (simp add: B_def)
    have mem: "\<forall>k'. contains c' k' \<longleftrightarrow> k' = k \<or> contains c k' \<and> k' \<noteq> ?lk"
      unfolding ob'(6) ob(6) old new using nb by blast
    have "len c' = len c" using ob'(1) ob(1) it ne by simp
    then show ?thesis using c'(1,3) l clk lne mem it nk ev used later by blast
  qed
  then show "\<exists>c. run m ops = Inr c \<and>
        map fst (items c) = filter (contains c) (recency (uses m ops)) \<and>
        (\<not> contains c k \<and> (full c \<or> maxsize c < int (len c) + 1) \<longrightarrow>
           (\<exists>c' l lk. set_item k v c = Inr c' \<and>
              get0 (heap c) (root c) = Inr l \<and> get2 (heap c) l = Inr lk \<and>
              contains c lk \<and> lk \<noteq> k \<and>
              0 < last_use (uses m ops) lk \<and>
              (\<forall>k'. contains c k' \<and> k' \<noteq> lk \<longrightarrow>
                 last_use (uses m ops) lk < last_use (uses m ops) k') \<and>
              (\<forall>k'. contains c' k' \<longleftrightarrow> k' = k \<or> contains c k' \<and> k' \<noteq> lk) \<and>
              items c' = (k, v) # butlast (items c) \<and> len c' = len c \<and> full c'))"
    using c(1,4) unfolding tr_def by blast
next
  assume d: "a \<noteq> b \<and> a \<noteq> c \<and> b \<noteq> c"
  then have d': "b \<noteq> a" "c \<noteq> a" "c \<noteq> b" by auto
  show "\<exists>s. run 2 [Set a v1, Set b v2, Get a, Set c v3] = Inr s \<and>
        contains s a \<and> contains s c \<and> \<not> contains s b"
    using d d' by (simp add: cache_eval)
qed

theorem set_new_key_evicts_lru_witness:
  "(0::int) < 2 \<and>
   (\<exists>c. run 2 [Set (1::nat) (10::nat), Set 2 20, Get 1] = Inr c \<and>
      map fst (items c) =
        filter (contains c) (recency (uses 2 [Set (1::nat) (10::nat), Set 2 20, Get 1])) \<and>
      (\<not> contains c 3 \<and> (full c \<or> maxsize c < int (len c) + 1)) \<and>
      (\<exists>c' l lk. set_item 3 30 c = Inr c' \<and>
         get0 (heap c) (root c) = Inr l \<and> get2 (heap c) l = Inr lk \<and>
         contains c lk \<and> lk \<noteq> 3 \<and>
         0 < last_use (uses 2 [Set (1::nat) (10::nat), Set 2 20, Get 1]) lk \<and>
         (contains c 1 \<and> 1 \<noteq> lk) \<and>
         last_use (uses 2 [Set (1::nat) (10::nat), Set 2 20, Get 1]) lk <
           last_use (uses 2 [Set (1::nat) (10::nat), Set 2 20, Get 1]) 1 \<and>
         (\<forall>k'. contains c' k' \<longleftrightarrow> k' = 3 \<or> contains c k' \<and> k' \<noteq> lk) \<and>
         items c' = (3, 30) # butlast (items c) \<and> len c' = len c \<and> full c')) \<and>
   ((1::nat) \<noteq> 2 \<and> (1::nat) \<noteq> 3 \<and> (2::nat) \<noteq> 3) \<and>
   (\<exists>s. run 2 [Set (1::nat) (1::nat), Set 2 2, Get 1, Set 3 3] = Inr s \<and>
      contains s 1 \<and> contains s 3 \<and> \<not> contains s 2)"
proof -
  let ?ops = "[Set (1::nat) (10::nat), Set 2 20, Get 1]"
  let ?tr = "uses 2 ?ops"
  have h: "(0::int) < 2" by simp
  have d: "(1::nat) \<noteq> 2 \<and> (1::nat) \<noteq> 3 \<and> (2::nat) \<noteq> 3" by simp
  note t = set_new_key_evicts_lru [of 2 ?ops 3 30 1 2 3 1 2 3]
  from mp[OF conjunct1[OF t] h] obtain c where c0: "run 2 ?ops = Inr c \<and>
      map fst (items c) = filter (contains c) (recency ?tr) \<and>
      (\<not> contains c 3 \<and> (full c \<or> maxsize c < int (len c) + 1) \<longrightarrow>
           (\<exists>c' l lk. set_item 3 30 c = Inr c' \<and>
              get0 (heap c) (root c) = Inr l \<and> get2 (heap c) l = Inr lk \<and>
              contains c lk \<and> lk \<noteq> 3 \<and>
              0 < last_use ?tr lk \<and>
              (\<forall>k'. contains c k' \<and> k' \<noteq> lk \<longrightarrow> last_use ?tr lk < last_use ?tr k') \<and>
              (\<forall>k'. contains c' k' \<longleftrightarrow> k' = 3 \<or> contains c k' \<and> k' \<noteq> lk) \<and>
              items c' = (3, 30) # butlast (items c) \<and> len c' = len c \<and> full c'))" ..
  note c = conjunct1[OF c0] conjunct1[OF conjunct2[OF c0]] conjunct2[OF conjunct2[OF c0]]
  note s = mp[OF conjunct2[OF t] d]
  have ev: "map_sum id (\<lambda>c. (contains c 3, maxsize c, len c, contains c 1,
                 res_bind (get0 (heap c) (root c)) (get2 (heap c)))) (run 2 ?ops) =
            Inr (False, 2, 2, True, Inr 2)"
    by (simp add: cache_eval)
  have p: "\<not> contains c 3 \<and> (full c \<or> maxsize c < int (len c) + 1)"
    using ev unfolding c(1) by simp
  with c(3) obtain c' l lk where e: "set_item 3 30 c = Inr c'"
      "get0 (heap c) (root c) = Inr l" "get2 (heap c) l = Inr lk"
      "contains c lk" "lk \<noteq> 3" "0 < last_use ?tr lk"
      "\<forall>k'. contains c k' \<and> k' \<noteq> lk \<longrightarrow> last_use ?tr lk < last_use ?tr k'"
      "\<forall>k'. contains c' k' \<longleftrightarrow> k' = 3 \<or> contains c k' \<and> k' \<noteq> lk"
      "items c' = (3, 30) # butlast (items c)" "len c' = len c" "full c'"
    by blast
  have q: "contains c 1 \<and> 1 \<noteq> lk"
    using ev unfolding c(1) by (simp add: e(2,3) res_bind_def)
  then have r: "last_use ?tr lk < last_use ?tr 1" using e(7) by blast
  have "\<exists>c' l lk. set_item 3 30 c = Inr c' \<and>
         get0 (heap c) (root c) = Inr l \<and> get2 (heap c) l = Inr lk \<and>
         contains c lk \<and> lk \<noteq> 3 \<and>
         0 < last_use ?tr lk \<and>
         (contains c 1 \<and> 1 \<noteq> lk) \<and>
         last_use ?tr lk < last_use ?tr 1 \<and>
         (\<forall>k'. contains c' k' \<longleftrightarrow> k' = 3 \<or> contains c k' \<and> k' \<noteq> lk) \<and>
         items c' = (3, 30) # butlast (items c) \<and> len c' = len c \<and> full c'"
    using e(1,2,3,4,5,6,8,9,10,11) q r by blast
  with c(1,2) p have big: "\<exists>c. run 2 ?ops = Inr c \<and>
      map fst (items c) = filter (contains c) (recency ?tr) \<and>
      (\<not> contains c 3 \<and> (full c \<or> maxsize c < int (len c) + 1)) \<and>
      (\<exists>c' l lk. set_item 3 30 c = Inr c' \<and>
         get0 (heap c) (root c) = Inr l \<and> get2 (heap c) l = Inr lk \<and>
         contains c lk \<and> lk \<noteq> 3 \<and>
         0 < last_use ?tr lk \<and>
         (contains c 1 \<and> 1 \<noteq> lk) \<and>
         last_use ?tr lk < last_use ?tr 1 \<and>
         (\<forall>k'. contains c' k' \<longleftrightarrow> k' = 3 \<or> contains c k' \<and> k' \<noteq> lk) \<and>
         items c' = (3, 30) # butlast (items c) \<and> len c' = len c \<and> full c')"
    by blast
  show ?thesis by (rule conjI[OF h conjI[OF big conjI[OF d s]]])
qed

text \<open>
  C3. For a cache constructed with positive capacity, every sequence of \<^verbatim>\<open>set\<close> and
  \<^verbatim>\<open>get\<close> calls runs without an exception, and afterwards \<^verbatim>\<open>len()\<close> does not exceed
  the capacity once the full flag is set. (It never does, and once the flag is set it is
  equal to the capacity.)
\<close>

theorem len_never_exceeds_maxsize:
  fixes ops :: "('k, 'v) cache_op list"
  assumes m: "0 < m"
  shows "\<exists>c. run m ops = Inr c \<and> (full c \<longrightarrow> int (len c) \<le> m) \<and>
           int (len c) \<le> m \<and> (full c \<longrightarrow> int (len c) = m)"
proof -
  obtain c :: "('k, 'v) lru_cache" and as where c: "run m ops = Inr c" "lru_inv c as" "maxsize c = m"
    using run_inv[OF m] by blast
  show ?thesis using c(1,3) inv_observers(4,5)[OF c(2)] by auto
qed

theorem len_never_exceeds_maxsize_witness:
  "(0::int) < 1 \<and>
   (\<exists>c. run 1 [Set (1::nat) (10::nat), Set 2 20, Get 2, Set 3 30] = Inr c \<and> full c \<and>
      int (len c) \<le> 1 \<and> int (len c) = 1)"
proof -
  have h: "(0::int) < 1" by simp
  have p: "full c" if "run 1 [Set (1::nat) (10::nat), Set 2 20, Get 2, Set 3 30] = Inr c" for c
    using that by (auto simp: cache_eval)
  show ?thesis
    using h p len_never_exceeds_maxsize [OF h, of "[Set (1::nat) (10::nat), Set 2 20, Get 2, Set 3 30]"]
    by blast
qed

lemma last_sibling_le:
  assumes "last_sibling s a = Some r"
  shows "last_sibling_simple s a = Some r"
proof (rule last_sibling.raw_induct[where P = "\<lambda>s a r. last_sibling_simple s a = Some r"])
  show "last_sibling s a = Some r" by (rule assms)
next
  fix f s node r
  assume ih: "\<And>s a r. f s a = Some r \<Longrightarrow> last_sibling_simple s a = Some r"
    and st: "(if expanded (s node) \<and> children (s node) \<noteq> []
              then f s (last (children (s node)))
              else Some (if children (s node) \<noteq> [] \<and> expanded (s node)
                         then last (children (s node)) else node)) = Some r"
  show "last_sibling_simple s node = Some r"
  proof (cases "expanded (s node) \<and> children (s node) \<noteq> []")
    case True
    then have "f s (last (children (s node))) = Some r" using st by simp
    then have "last_sibling_simple s (last (children (s node))) = Some r" by (rule ih)
    then show ?thesis using True by (subst last_sibling_simple.simps) simp
  next
    case False
    then have "r = node" using st by auto
    then show ?thesis using False by (subst last_sibling_simple.simps) auto
  qed
qed

lemma last_sibling_ge:
  assumes "last_sibling_simple s a = Some r"
  shows "last_sibling s a = Some r"
proof (rule last_sibling_simple.raw_induct[where P = "\<lambda>s a r. last_sibling s a = Some r"])
  show "last_sibling_simple s a = Some r" by (rule assms)
next
  fix f s node r
  assume ih: "\<And>s a r. f s a = Some r \<Longrightarrow> last_sibling s a = Some r"
    and st: "(if expanded (s node) \<and> children (s node) \<noteq> []
              then f s (last (children (s node)))
              else Some node) = Some r"
  show "last_sibling s node = Some r"
  proof (cases "expanded (s node) \<and> children (s node) \<noteq> []")
    case True
    then have "f s (last (children (s node))) = Some r" using st by simp
    then have "last_sibling s (last (children (s node))) = Some r" by (rule ih)
    then show ?thesis using True by (subst last_sibling.simps) simp
  next
    case False
    then have "r = node" using st by auto
    then show ?thesis using False by (subst last_sibling.simps) auto
  qed
qed

lemma last_sibling_eq: "last_sibling s a = last_sibling_simple s a"
proof (cases "last_sibling s a")
  case None
  then show ?thesis using last_sibling_ge[of s a] by (cases "last_sibling_simple s a") auto
next
  case (Some r)
  then show ?thesis using last_sibling_le[of s a r] by simp
qed

text \<open>
  C8. The conditional expression in the \<^verbatim>\<open>else\<close> branch of \<^verbatim>\<open>last_sibling\<close> is only
  reached when the node is not expanded or has no children, so it yields the node:
  \<^verbatim>\<open>last_sibling\<close> and \<^verbatim>\<open>previous_node\<close> are equal, on every store and node, to the
  versions whose \<^verbatim>\<open>else\<close> branch is the node, also where they do not return.
\<close>

theorem previous_node_dead_branch:
  "last_sibling s node = last_sibling_simple s node \<and>
   previous_node s self = previous_node_simple s self"
  by (simp add: previous_node_def previous_node_simple_def last_sibling_eq cong: option.case_cong)

lemma next_node_loop_root: "parent (s n) = None \<Longrightarrow> next_node_loop s n = Some None"
  by (subst next_node_loop.simps) simp

lemma next_node_loop_sibling:
  "parent (s n) = Some p \<Longrightarrow> next_sibling s p = Some x \<Longrightarrow> next_node_loop s n = Some (Some x)"
  by (subst next_node_loop.simps) simp

lemma next_node_loop_up:
  "parent (s n) = Some p \<Longrightarrow> next_sibling s p = None \<Longrightarrow> next_node_loop s n = next_node_loop s p"
  by (subst next_node_loop.simps) simp

lemma last_sibling_leaf:
  "\<not> (expanded (s n) \<and> children (s n) \<noteq> []) \<Longrightarrow> last_sibling s n = Some n"
  by (subst last_sibling.simps) auto

lemma last_sibling_step:
  "expanded (s n) \<Longrightarrow> children (s n) \<noteq> [] \<Longrightarrow>
   last_sibling s n = last_sibling s (last (children (s n)))"
  by (subst last_sibling.simps) simp

lemma find_cursor_loop_Nil: "find_cursor_loop s nid [] line = Some None"
  by (subst find_cursor_loop.simps) simp

lemma find_cursor_loop_pop: "find_cursor_loop s nid ([] # rest) line = find_cursor_loop s nid rest line"
  by (subst find_cursor_loop.simps) simp

lemma find_cursor_loop_found:
  "node_id (s node) = nid \<Longrightarrow> find_cursor_loop s nid ((node # it) # rest) line = Some (Some line)"
  by (subst find_cursor_loop.simps) simp

lemma find_cursor_loop_push:
  "node_id (s node) \<noteq> nid \<Longrightarrow>
   find_cursor_loop s nid ((node # it) # rest) line =
   find_cursor_loop s nid
     ((if children (s node) \<noteq> [] \<and> expanded (s node) then [children (s node)] else []) @ it # rest)
     (line + 1)"
  by (subst find_cursor_loop.simps) simp

lemma wf_parent: "tree_wf s N \<Longrightarrow> parent (s a) = Some p \<Longrightarrow> p < a \<and> a \<le> N \<and> a \<in> set (children (s p))"
  unfolding tree_wf_def by blast

lemma wf_child: "tree_wf s N \<Longrightarrow> c \<in> set (children (s a)) \<Longrightarrow> parent (s c) = Some a \<and> a < c \<and> c \<le> N"
  unfolding tree_wf_def by blast

lemma wf_distinct: "tree_wf s N \<Longrightarrow> distinct (children (s a))"
  unfolding tree_wf_def by blast

lemma wf_node_id: "tree_wf s N \<Longrightarrow> a \<le> N \<Longrightarrow> node_id (s a) = a"
  unfolding tree_wf_def by blast

lemma wf_has_parent: "tree_wf s N \<Longrightarrow> 0 < a \<Longrightarrow> a \<le> N \<Longrightarrow> \<exists>p. parent (s a) = Some p"
  unfolding tree_wf_def by blast

lemma tree_wfI:
  assumes "\<And>a p. parent (s a) = Some p \<Longrightarrow> p < a \<and> a \<le> N \<and> a \<in> set (children (s p))"
    and "\<And>a c. c \<in> set (children (s a)) \<Longrightarrow> parent (s c) = Some a"
    and "\<And>a. distinct (children (s a))"
    and "\<And>a. a \<le> N \<Longrightarrow> node_id (s a) = a"
    and "\<And>a. 0 < a \<Longrightarrow> a \<le> N \<Longrightarrow> parent (s a) \<noteq> None"
  shows "tree_wf s N"
  unfolding tree_wf_def using assms by blast

lemma wf_unallocated: "tree_wf s N \<Longrightarrow> N < a \<Longrightarrow> parent (s a) = None \<and> children (s a) = []"
proof
  assume w: "tree_wf s N" and a: "N < a"
  show "parent (s a) = None"
  proof (cases "parent (s a)")
    case (Some p)
    then show ?thesis using wf_parent[OF w Some] a by simp
  qed simp
  show "children (s a) = []"
  proof (cases "children (s a)")
    case (Cons c cs)
    then have "c \<in> set (children (s a))" by simp
    then have "a < c \<and> c \<le> N" using wf_child[OF w] by blast
    then show ?thesis using a by simp
  qed simp
qed

lemma init_wf: "tree_wf (\<lambda>_. new_node None 0) 0"
  by (rule tree_wfI) (simp_all add: new_node_def)

lemma init_inv_tree: "control_inv tree_control_init"
  using init_wf by (simp add: control_inv_def tree_control_init_def)

lemma expand_wf:
  assumes w: "tree_wf s N"
  shows "tree_wf (s(a := (s a)\<lparr>expanded := b\<rparr>)) N"
proof (rule tree_wfI)
  let ?s = "s(a := (s a)\<lparr>expanded := b\<rparr>)"
  have p: "\<And>x. parent (?s x) = parent (s x)" and c: "\<And>x. children (?s x) = children (s x)"
    and i: "\<And>x. node_id (?s x) = node_id (s x)" by simp_all
  show "\<And>x q. parent (?s x) = Some q \<Longrightarrow> q < x \<and> x \<le> N \<and> x \<in> set (children (?s q))"
    unfolding p c using wf_parent[OF w] by blast
  show "\<And>x y. y \<in> set (children (?s x)) \<Longrightarrow> parent (?s y) = Some x"
    unfolding p c using wf_child[OF w] by blast
  show "\<And>x. distinct (children (?s x))" unfolding c using wf_distinct[OF w] by blast
  show "\<And>x. x \<le> N \<Longrightarrow> node_id (?s x) = x" unfolding i using wf_node_id[OF w] by blast
  show "\<And>x. 0 < x \<Longrightarrow> x \<le> N \<Longrightarrow> parent (?s x) \<noteq> None"
    unfolding p using wf_has_parent[OF w] by fastforce
qed

lemma expand_inv: "control_inv tc \<Longrightarrow> control_inv (expand a b tc)"
  using expand_wf by (simp add: control_inv_def expand_def)

lemma toggle_inv: "control_inv tc \<Longrightarrow> control_inv (toggle a tc)"
  by (simp add: toggle_def expand_inv)

lemma add_wf:
  assumes w: "tree_wf s N" and p: "p \<le> N"
  defines "s1 \<equiv> s(Suc N := new_node (Some p) (Suc N))"
  defines "s2 \<equiv> s1(p := (s1 p)\<lparr>children := children (s1 p) @ [Suc N]\<rparr>)"
  shows "tree_wf s2 (Suc N)"
proof (rule tree_wfI)
  have un: "parent (s (Suc N)) = None" "children (s (Suc N)) = []"
    using wf_unallocated[OF w, of "Suc N"] by simp_all
  have pn: "p \<noteq> Suc N" using p by simp
  have par: "\<And>x. parent (s2 x) = (if x = Suc N then Some p else parent (s x))"
    using pn by (simp add: s2_def s1_def new_node_def)
  have chi: "\<And>x. children (s2 x) = (if x = p then children (s x) @ [Suc N] else children (s x))"
    using pn un by (simp add: s2_def s1_def new_node_def)
  have nid: "\<And>x. node_id (s2 x) = (if x = Suc N then Suc N else node_id (s x))"
    using pn by (simp add: s2_def s1_def new_node_def)
  have fresh: "\<And>x. Suc N \<notin> set (children (s x))"
    using wf_child[OF w] by fastforce
  show "\<And>x q. parent (s2 x) = Some q \<Longrightarrow> q < x \<and> x \<le> Suc N \<and> x \<in> set (children (s2 q))"
  proof -
    fix x q assume a: "parent (s2 x) = Some q"
    show "q < x \<and> x \<le> Suc N \<and> x \<in> set (children (s2 q))"
    proof (cases "x = Suc N")
      case True
      then show ?thesis using a p par chi by simp
    next
      case False
      then have "parent (s x) = Some q" using a par by simp
      then have "q < x \<and> x \<le> N \<and> x \<in> set (children (s q))" by (rule wf_parent[OF w])
      then show ?thesis using chi by auto
    qed
  qed
  show "\<And>x y. y \<in> set (children (s2 x)) \<Longrightarrow> parent (s2 y) = Some x"
  proof -
    fix x y assume a: "y \<in> set (children (s2 x))"
    show "parent (s2 y) = Some x"
    proof (cases "y = Suc N")
      case True
      then have "x = p" using a chi fresh by (auto split: if_splits)
      then show ?thesis using True par by simp
    next
      case False
      then have "y \<in> set (children (s x))" using a chi by (auto split: if_splits)
      then have "parent (s y) = Some x" using wf_child[OF w] by blast
      then show ?thesis using False par by simp
    qed
  qed
  show "\<And>x. distinct (children (s2 x))"
    using chi wf_distinct[OF w] fresh by simp
  show "\<And>x. x \<le> Suc N \<Longrightarrow> node_id (s2 x) = x"
    using nid wf_node_id[OF w] by (auto simp: le_Suc_eq)
  show "\<And>x. 0 < x \<Longrightarrow> x \<le> Suc N \<Longrightarrow> parent (s2 x) \<noteq> None"
  proof -
    fix x :: nat assume "0 < x" "x \<le> Suc N"
    then show "parent (s2 x) \<noteq> None"
      using par wf_has_parent[OF w, of x] by (cases "x = Suc N") auto
  qed
qed

lemma add_inv:
  assumes i: "control_inv tc"
  shows "(\<exists>tc'. add nid tc = Inr tc' \<and> control_inv tc') \<or> add nid tc = Inl KeyError"
proof (cases "nodes tc nid")
  case None
  then show ?thesis by (simp add: add_def)
next
  case (Some p)
  let ?N = "control_node_id tc"
  from i have w: "tree_wf (objects tc) ?N" and n: "\<forall>i. nodes tc i = (if i \<le> ?N then Some i else None)"
    and r: "tree_root tc = 0" and c: "cursor tc \<le> ?N"
    by (simp_all add: control_inv_def)
  have p: "p \<le> ?N" using Some n by (metis option.distinct(1) option.inject)
  let ?s1 = "(objects tc)(Suc ?N := new_node (Some p) (Suc ?N))"
  let ?s2 = "?s1(p := (?s1 p)\<lparr>children := children (?s1 p) @ [Suc ?N]\<rparr>)"
  let ?tc' = "tc\<lparr>control_node_id := Suc ?N, objects := ?s2, nodes := (nodes tc)(Suc ?N \<mapsto> Suc ?N)\<rparr>"
  have a: "add nid tc = Inr ?tc'" using Some by (simp add: add_def Let_def)
  have "tree_wf ?s2 (Suc ?N)" using add_wf[OF w p] by simp
  then have "control_inv ?tc'" using n r c by (simp add: control_inv_def)
  then show ?thesis using a by blast
qed

lemma vis_wf:
  assumes "tree_wf s N"
  shows "vis N s a =
     a # (if expanded (s a) \<and> children (s a) \<noteq> [] then concat (map (vis N s) (children (s a))) else [])"
proof -
  have "filter (\<lambda>c. a < c \<and> c \<le> N) (children (s a)) = children (s a)"
    using wf_child[OF assms] by (intro filter_True) blast
  then show ?thesis by (subst vis.simps) simp
qed

lemma vis_nonempty: "vis N s a \<noteq> []"
  by (subst vis.simps) simp

lemma vis_hd: "hd (vis N s a) = a"
  by (subst vis.simps) simp

lemma scan_next_mid:
  "c \<notin> set xs \<Longrightarrow> scan_next c (xs @ c # ys) = (case ys of [] \<Rightarrow> None | y # _ \<Rightarrow> Some y)"
  by (induction xs) auto

lemma scan_previous_mid:
  "c \<notin> set xs \<Longrightarrow> scan_previous c sib (xs @ c # ys) = (if xs = [] then sib else Some (last xs))"
  by (induction xs arbitrary: sib) auto

lemma concat_split:
  "concat (map f cs) = xs @ a # ys \<Longrightarrow>
   \<exists>cs1 c cs2 u v. cs = cs1 @ c # cs2 \<and> f c = u @ a # v \<and>
      xs = concat (map f cs1) @ u \<and> ys = v @ concat (map f cs2)"
proof (induction cs arbitrary: xs)
  case Nil
  then show ?case by simp
next
  case (Cons c cs)
  then have eq: "f c @ concat (map f cs) = xs @ a # ys" by simp
  from eq obtain us where us:
    "(f c = xs @ us \<and> us @ concat (map f cs) = a # ys) \<or>
     (f c @ us = xs \<and> concat (map f cs) = us @ a # ys)"
    unfolding append_eq_append_conv2 by blast
  have inner: ?case if xs': "xs = f c @ xs'" "concat (map f cs) = xs' @ a # ys" for xs'
  proof -
    obtain cs1 d cs2 u v where "cs = cs1 @ d # cs2" "f d = u @ a # v"
        "xs' = concat (map f cs1) @ u" "ys = v @ concat (map f cs2)"
      using Cons.IH[OF xs'(2)] by blast
    then show ?thesis using xs'(1)
      by (intro exI[of _ "c # cs1"] exI[of _ d] exI[of _ cs2] exI[of _ u] exI[of _ v]) simp
  qed
  from us show ?case
  proof
    assume h: "f c = xs @ us \<and> us @ concat (map f cs) = a # ys"
    show ?case
    proof (cases us)
      case Nil
      then show ?thesis using h inner[of "[]"] by simp
    next
      case (Cons a' v)
      then have "f c = xs @ a # v" "ys = v @ concat (map f cs)" using h by simp_all
      then show ?thesis
        by (intro exI[of _ "[]"] exI[of _ c] exI[of _ cs] exI[of _ xs] exI[of _ v]) simp
    qed
  next
    assume "f c @ us = xs \<and> concat (map f cs) = us @ a # ys"
    then show ?case using inner[of us] by simp
  qed
qed

lemma next_node_up:
  "next_node s a = (if expanded (s a) \<and> children (s a) \<noteq> []
                    then Some (Some (hd (children (s a)))) else up_next s a)"
  by (simp add: next_node_def up_next_def)

lemma up_next_child:
  assumes w: "tree_wf s N" and cs: "children (s t) = cs1 @ c # cs2"
  shows "up_next s c = (case cs2 of [] \<Rightarrow> up_next s t | c' # _ \<Rightarrow> Some (Some c'))"
proof -
  have "c \<in> set (children (s t))" using cs by simp
  then have p: "parent (s c) = Some t" using wf_child[OF w] by blast
  have "distinct (cs1 @ c # cs2)" using wf_distinct[OF w, of t] cs by simp
  then have "c \<notin> set cs1" by simp
  then have ns: "next_sibling s c = (case cs2 of [] \<Rightarrow> None | y # _ \<Rightarrow> Some y)"
    using p cs by (simp add: next_sibling_def scan_next_mid)
  show ?thesis
  proof (cases cs2)
    case Nil
    then have n: "next_sibling s c = None" using ns by simp
    have "next_node_loop s c = up_next s t"
    proof (cases "next_sibling s t")
      case None
      then show ?thesis using p by (simp add: next_node_loop_up up_next_def)
    next
      case (Some x)
      then show ?thesis using p by (simp add: next_node_loop_sibling up_next_def)
    qed
    then show ?thesis using n Nil by (simp add: up_next_def)
  next
    case (Cons c' cs')
    then show ?thesis using ns by (simp add: up_next_def)
  qed
qed

lemma next_node_vis:
  "tree_wf s N \<Longrightarrow> vis N s t = xs @ a # ys \<Longrightarrow>
   next_node s a = (case ys of [] \<Rightarrow> up_next s t | b # _ \<Rightarrow> Some (Some b))"
proof (induction N s t arbitrary: xs a ys rule: vis.induct)
  case (1 N s t)
  note w = "1.prems"(1)
  let ?cs = "children (s t)"
  have v: "vis N s t = t # (if expanded (s t) \<and> ?cs \<noteq> [] then concat (map (vis N s) ?cs) else [])"
    using w by (rule vis_wf)
  have filt: "filter (\<lambda>c. t < c \<and> c \<le> N) ?cs = ?cs"
    using wf_child[OF w] by (intro filter_True) blast
  show ?case
  proof (cases "expanded (s t) \<and> ?cs \<noteq> []")
    case False
    then have "xs @ a # ys = [t]" using v "1.prems"(2) by simp
    then have "xs = []" "a = t" "ys = []" by (cases xs; simp)+
    then show ?thesis using False by (auto simp: next_node_up)
  next
    case True
    then have v': "t # concat (map (vis N s) ?cs) = xs @ a # ys" using v "1.prems"(2) by simp
    show ?thesis
    proof (cases xs)
      case Nil
      then have a: "a = t" "ys = concat (map (vis N s) ?cs)" using v' by auto
      obtain c cs' where c: "?cs = c # cs'" using True by (cases ?cs) auto
      obtain r where "vis N s c = c # r" using vis_hd[of N s c] vis_nonempty[of N s c]
        by (cases "vis N s c") auto
      then show ?thesis using a c True by (simp add: next_node_up)
    next
      case (Cons x xs')
      then have "concat (map (vis N s) ?cs) = xs' @ a # ys" using v' by auto
      then obtain cs1 c cs2 u v where sp: "?cs = cs1 @ c # cs2" "vis N s c = u @ a # v"
          "xs' = concat (map (vis N s) cs1) @ u" "ys = v @ concat (map (vis N s) cs2)"
        using concat_split[of "vis N s" ?cs xs' a ys] by blast
      have cin: "c \<in> set (filter (\<lambda>c. t < c \<and> c \<le> N) ?cs)" using sp(1) filt by simp
      have ih: "next_node s a = (case v of [] \<Rightarrow> up_next s c | b # _ \<Rightarrow> Some (Some b))"
        using "1.IH"[OF True cin w sp(2)] .
      show ?thesis
      proof (cases v)
        case (Cons b v')
        then show ?thesis using ih sp(4) by simp
      next
        case Nil
        then have n: "next_node s a = up_next s c" using ih by simp
        show ?thesis
        proof (cases cs2)
          case Nil
          then show ?thesis using n up_next_child[OF w sp(1)] sp(4) \<open>v = []\<close> by simp
        next
          case (Cons c' cs')
          obtain r where "vis N s c' = c' # r" using vis_hd[of N s c'] vis_nonempty[of N s c']
            by (cases "vis N s c'") auto
          then show ?thesis using n up_next_child[OF w sp(1)] sp(4) \<open>v = []\<close> Cons by simp
        qed
      qed
    qed
  qed
qed

lemma last_sibling_vis:
  "tree_wf s N \<Longrightarrow> last_sibling s t = Some (last (vis N s t))"
proof (induction N s t rule: vis.induct)
  case (1 N s t)
  note w = "1.prems"(1)
  let ?cs = "children (s t)"
  have v: "vis N s t = t # (if expanded (s t) \<and> ?cs \<noteq> [] then concat (map (vis N s) ?cs) else [])"
    using w by (rule vis_wf)
  have filt: "filter (\<lambda>c. t < c \<and> c \<le> N) ?cs = ?cs"
    using wf_child[OF w] by (intro filter_True) blast
  show ?case
  proof (cases "expanded (s t) \<and> ?cs \<noteq> []")
    case False
    then show ?thesis using v by (simp add: last_sibling_leaf)
  next
    case True
    then have lin: "last ?cs \<in> set (filter (\<lambda>c. t < c \<and> c \<le> N) ?cs)" using filt by simp
    have ih: "last_sibling s (last ?cs) = Some (last (vis N s (last ?cs)))"
      using "1.IH"[OF True lin w] .
    have cs: "?cs = butlast ?cs @ [last ?cs]" using True by simp
    have "concat (map (vis N s) ?cs) =
          concat (map (vis N s) (butlast ?cs)) @ vis N s (last ?cs)"
      by (subst cs) simp
    then have "last (vis N s t) = last (vis N s (last ?cs))"
      using v True vis_nonempty[of N s "last ?cs"] by simp
    then show ?thesis using ih True by (simp add: last_sibling_step)
  qed
qed

lemma vis_Cons: "\<exists>r. vis N s c = c # r"
  by (subst vis.simps) simp

lemma last_concat_vis:
  "cs \<noteq> [] \<Longrightarrow> last (concat (map (vis N s) cs)) = last (vis N s (last cs))"
proof -
  assume ne: "cs \<noteq> []"
  then have cs: "cs = butlast cs @ [last cs]" by simp
  have "concat (map (vis N s) cs) = concat (map (vis N s) (butlast cs)) @ vis N s (last cs)"
    by (subst cs) simp
  then show ?thesis using vis_nonempty[of N s "last cs"] by simp
qed

lemma previous_node_child:
  assumes w: "tree_wf s N" and cs: "children (s t) = cs1 @ c # cs2"
  shows "previous_node s c =
           Some (Some (if cs1 = [] then t else last (concat (map (vis N s) cs1))))"
proof -
  have "c \<in> set (children (s t))" using cs by simp
  then have p: "parent (s c) = Some t" using wf_child[OF w] by blast
  have "distinct (cs1 @ c # cs2)" using wf_distinct[OF w, of t] cs by simp
  then have "c \<notin> set cs1" by simp
  then have ps: "previous_sibling s c = (if cs1 = [] then None else Some (last cs1))"
    using p cs by (simp add: previous_sibling_def scan_previous_mid)
  show ?thesis
  proof (cases "cs1 = []")
    case True
    then show ?thesis using ps p by (simp add: previous_node_def)
  next
    case False
    then show ?thesis
      using ps last_sibling_vis[OF w, of "last cs1"] last_concat_vis[OF False, of N s]
      by (simp add: previous_node_def)
  qed
qed

lemma previous_node_vis:
  "tree_wf s N \<Longrightarrow> vis N s t = xs @ a # ys \<Longrightarrow> xs \<noteq> [] \<Longrightarrow>
   previous_node s a = Some (Some (last xs))"
proof (induction N s t arbitrary: xs a ys rule: vis.induct)
  case (1 N s t)
  note w = "1.prems"(1)
  let ?cs = "children (s t)"
  have v: "vis N s t = t # (if expanded (s t) \<and> ?cs \<noteq> [] then concat (map (vis N s) ?cs) else [])"
    using w by (rule vis_wf)
  have filt: "filter (\<lambda>c. t < c \<and> c \<le> N) ?cs = ?cs"
    using wf_child[OF w] by (intro filter_True) blast
  obtain x xs' where xs: "xs = x # xs'" using "1.prems"(3) by (cases xs) auto
  show ?case
  proof (cases "expanded (s t) \<and> ?cs \<noteq> []")
    case False
    then have "xs @ a # ys = [t]" using v "1.prems"(2) by simp
    then show ?thesis using xs by simp
  next
    case True
    then have "t # concat (map (vis N s) ?cs) = x # xs' @ a # ys" using v "1.prems"(2) xs by simp
    then have x: "x = t" and cc: "concat (map (vis N s) ?cs) = xs' @ a # ys" by auto
    obtain cs1 c cs2 u v where sp: "?cs = cs1 @ c # cs2" "vis N s c = u @ a # v"
        "xs' = concat (map (vis N s) cs1) @ u" "ys = v @ concat (map (vis N s) cs2)"
      using cc concat_split[of "vis N s" ?cs xs' a ys] by blast
    have cin: "c \<in> set (filter (\<lambda>c. t < c \<and> c \<le> N) ?cs)" using sp(1) filt by simp
    show ?thesis
    proof (cases "u = []")
      case False
      have "previous_node s a = Some (Some (last u))"
        using "1.IH"[OF True cin w sp(2) False] .
      then show ?thesis using xs sp(3) False by simp
    next
      case u: True
      obtain r where "vis N s c = c # r" using vis_Cons by blast
      then have ac: "a = c" using sp(2) u by simp
      have pn: "previous_node s c =
           Some (Some (if cs1 = [] then t else last (concat (map (vis N s) cs1))))"
        using w sp(1) by (rule previous_node_child)
      show ?thesis
      proof (cases "cs1 = []")
        case c1: True
        then show ?thesis using pn ac xs x sp(3) u by simp
      next
        case c1: False
        define L where "L = concat (map (vis N s) cs1)"
        have "L \<noteq> []"
          unfolding L_def using vis_nonempty[of N s "hd cs1"] c1 by (cases cs1) auto
        then have "last (t # L) = last L" by simp
        moreover have "xs = t # L" using xs x sp(3) u by (simp add: L_def)
        ultimately show ?thesis using pn ac c1 by (simp add: L_def)
      qed
    qed
  qed
qed

lemma up_next_root: "parent (s a) = None \<Longrightarrow> up_next s a = Some None"
  by (simp add: up_next_def next_sibling_def next_node_loop_root)

lemma previous_node_root: "parent (s a) = None \<Longrightarrow> previous_node s a = Some None"
  by (simp add: previous_node_def previous_sibling_def)

lemma collapsed_not_visible: "collapsed_ancestor s a \<Longrightarrow> \<not> visible s a"
proof (induction rule: collapsed_ancestor.induct)
  case (collapsed_parent a p)
  then show ?case by (auto elim: visible.cases)
next
  case (collapsed_above a p)
  then show ?case by (auto elim: visible.cases)
qed

lemma vis_self: "a \<in> set (vis N s a)"
  by (subst vis.simps) simp

lemma vis_mem_cases:
  assumes w: "tree_wf s N" and b: "b \<in> set (vis N s t)"
  shows "b = t \<or> (expanded (s t) \<and> (\<exists>c\<in>set (children (s t)). b \<in> set (vis N s c)))"
  using b by (subst (asm) vis_wf[OF w]) (auto split: if_splits)

lemma vis_child_mem:
  assumes w: "tree_wf s N" and e: "expanded (s t)" and c: "c \<in> set (children (s t))"
    and b: "b \<in> set (vis N s c)"
  shows "b \<in> set (vis N s t)"
  using e c b by (subst vis_wf[OF w]) auto

lemma vis_bound: "tree_wf s N \<Longrightarrow> t \<le> N \<Longrightarrow> b \<in> set (vis N s t) \<Longrightarrow> b \<le> N"
proof (induction N s t arbitrary: b rule: vis.induct)
  case (1 N s t)
  note w = "1.prems"(1)
  from vis_mem_cases[OF w "1.prems"(3)] show ?case
  proof
    assume "b = t" then show ?thesis using "1.prems"(2) by simp
  next
    assume "expanded (s t) \<and> (\<exists>c\<in>set (children (s t)). b \<in> set (vis N s c))"
    then obtain c where c: "expanded (s t)" "c \<in> set (children (s t))" "b \<in> set (vis N s c)"
      by blast
    have cb: "t < c \<and> c \<le> N" using wf_child[OF w c(2)] by simp
    then have "c \<in> set (filter (\<lambda>c. t < c \<and> c \<le> N) (children (s t)))" using c(2) by simp
    moreover have "expanded (s t) \<and> children (s t) \<noteq> []" using c by auto
    ultimately show ?thesis using "1.IH"[OF _ _ w _ c(3)] cb by blast
  qed
qed

lemma vis_visible:
  "tree_wf s N \<Longrightarrow> visible s t \<Longrightarrow> b \<in> set (vis N s t) \<Longrightarrow> visible s b"
proof (induction N s t arbitrary: b rule: vis.induct)
  case (1 N s t)
  note w = "1.prems"(1)
  from vis_mem_cases[OF w "1.prems"(3)] show ?case
  proof
    assume "b = t" then show ?thesis using "1.prems"(2) by simp
  next
    assume "expanded (s t) \<and> (\<exists>c\<in>set (children (s t)). b \<in> set (vis N s c))"
    then obtain c where c: "expanded (s t)" "c \<in> set (children (s t))" "b \<in> set (vis N s c)"
      by blast
    have cb: "parent (s c) = Some t \<and> t < c \<and> c \<le> N" using wf_child[OF w c(2)] by simp
    then have cf: "c \<in> set (filter (\<lambda>c. t < c \<and> c \<le> N) (children (s t)))" using c(2) by simp
    have ex: "expanded (s t) \<and> children (s t) \<noteq> []" using c by auto
    have "visible s c" using cb c(1) "1.prems"(2) by (auto intro: visible_child)
    then show ?thesis using "1.IH"[OF ex cf w _ c(3)] by blast
  qed
qed

lemma vis_children:
  "tree_wf s N \<Longrightarrow> p \<in> set (vis N s t) \<Longrightarrow> expanded (s p) \<Longrightarrow> c \<in> set (children (s p)) \<Longrightarrow>
   c \<in> set (vis N s t)"
proof (induction N s t arbitrary: p c rule: vis.induct)
  case (1 N s t)
  note w = "1.prems"(1)
  from vis_mem_cases[OF w "1.prems"(2)] show ?case
  proof
    assume "p = t"
    then show ?thesis using vis_child_mem[OF w _ _ vis_self] "1.prems"(3,4) by blast
  next
    assume "expanded (s t) \<and> (\<exists>d\<in>set (children (s t)). p \<in> set (vis N s d))"
    then obtain d where d: "expanded (s t)" "d \<in> set (children (s t))" "p \<in> set (vis N s d)"
      by blast
    have db: "t < d \<and> d \<le> N" using wf_child[OF w d(2)] by simp
    then have df: "d \<in> set (filter (\<lambda>c. t < c \<and> c \<le> N) (children (s t)))" using d(2) by simp
    have ex: "expanded (s t) \<and> children (s t) \<noteq> []" using d by auto
    have "c \<in> set (vis N s d)" using "1.IH"[OF ex df w d(3) "1.prems"(3,4)] .
    then show ?thesis using vis_child_mem[OF w d(1,2)] by blast
  qed
qed

lemma visible_vis:
  assumes w: "tree_wf s N"
  shows "visible s a \<Longrightarrow> a \<le> N \<Longrightarrow> a \<in> set (vis N s 0)"
proof (induction rule: visible.induct)
  case (visible_root a)
  then have "a = 0" using wf_has_parent[OF w, of a] by (cases "a = 0") auto
  then show ?case by (simp add: vis_self)
next
  case (visible_child a p)
  have pa: "p < a \<and> a \<le> N \<and> a \<in> set (children (s p))" using wf_parent[OF w visible_child(1)] .
  then have "p \<in> set (vis N s 0)" using visible_child by simp
  then show ?case using vis_children[OF w _ visible_child(2)] pa by blast
qed

lemma wf_root: "tree_wf s N \<Longrightarrow> parent (s 0) = None"
  using wf_parent[of s N 0] by (cases "parent (s 0)") auto

lemma scan_next_mem: "scan_next a xs = Some y \<Longrightarrow> y \<in> set xs"
  by (induction xs) (auto split: if_splits list.splits)

lemma next_sibling_alloc:
  assumes w: "tree_wf s N" and n: "next_sibling s a = Some y"
  shows "y \<le> N"
proof -
  obtain p where "parent (s a) = Some p" "scan_next a (children (s p)) = Some y"
    using n by (auto simp: next_sibling_def split: option.splits)
  then have "y \<in> set (children (s p))" using scan_next_mem by blast
  then show ?thesis using wf_child[OF w] by blast
qed

text \<open>on a well-formed store the upward walk returns\<close>

lemma up_next_total:
  assumes w: "tree_wf s N"
  shows "\<exists>r. up_next s a = Some r \<and> (\<forall>m. r = Some m \<longrightarrow> m \<le> N)"
proof (induction a rule: less_induct)
  case (less a)
  show ?case
  proof (cases "next_sibling s a")
    case (Some y)
    then show ?thesis using next_sibling_alloc[OF w Some] by (simp add: up_next_def)
  next
    case None
    show ?thesis
    proof (cases "parent (s a)")
      case np: None
      then show ?thesis using up_next_root by simp
    next
      case (Some p)
      then have "p < a" using wf_parent[OF w] by blast
      then obtain r where r: "up_next s p = Some r" "\<forall>m. r = Some m \<longrightarrow> m \<le> N"
        using less.IH by blast
      have "next_node_loop s a = up_next s p"
      proof (cases "next_sibling s p")
        case None
        then show ?thesis using Some by (simp add: next_node_loop_up up_next_def)
      next
        case sp: (Some x)
        then show ?thesis using Some by (simp add: next_node_loop_sibling up_next_def)
      qed
      then show ?thesis using None r by (simp add: up_next_def)
    qed
  qed
qed

lemma next_node_total:
  assumes w: "tree_wf s N"
  shows "\<exists>r. next_node s a = Some r \<and> (\<forall>m. r = Some m \<longrightarrow> m \<le> N)"
proof (cases "expanded (s a) \<and> children (s a) \<noteq> []")
  case True
  then have "hd (children (s a)) \<in> set (children (s a))" by simp
  then have "hd (children (s a)) \<le> N" using wf_child[OF w] by blast
  then show ?thesis using True by (simp add: next_node_up)
next
  case False
  then have "next_node s a = up_next s a" by (auto simp: next_node_up)
  then show ?thesis using up_next_total[OF w, of a] by simp
qed

lemma scan_previous_mem:
  "scan_previous a sib xs = Some y \<Longrightarrow> Some y = sib \<or> y \<in> set xs"
  by (induction xs arbitrary: sib) (auto split: if_splits)

lemma previous_node_total:
  assumes w: "tree_wf s N" and a: "a \<le> N"
  shows "\<exists>r. previous_node s a = Some r \<and> (\<forall>m. r = Some m \<longrightarrow> m \<le> N)"
proof (cases "previous_sibling s a")
  case None
  have "\<forall>m. parent (s a) = Some m \<longrightarrow> m \<le> N" using wf_parent[OF w, of a] a by auto
  then show ?thesis using None by (simp add: previous_node_def)
next
  case (Some y)
  then obtain p where "parent (s a) = Some p" "scan_previous a None (children (s p)) = Some y"
    by (auto simp: previous_sibling_def split: option.splits)
  then have "y \<in> set (children (s p))" using scan_previous_mem by fastforce
  then have y: "y \<le> N" using wf_child[OF w] by blast
  have "last (vis N s y) \<in> set (vis N s y)" using vis_nonempty by simp
  then have "last (vis N s y) \<le> N" using vis_bound[OF w y] by blast
  then show ?thesis using Some last_sibling_vis[OF w, of y] by (simp add: previous_node_def)
qed

lemma cursor_down_inv:
  assumes i: "control_inv tc"
  shows "\<exists>tc'. cursor_down tc = Some (Inr tc') \<and> control_inv tc'"
proof (cases "show_cursor tc")
  case False
  then show ?thesis using i by (simp add: cursor_down_def control_inv_def)
next
  case True
  let ?N = "control_node_id tc"
  from i have w: "tree_wf (objects tc) ?N" and c: "nodes tc (cursor tc) = Some (cursor tc)"
    by (simp_all add: control_inv_def)
  obtain r where r: "next_node (objects tc) (cursor tc) = Some r" "\<forall>m. r = Some m \<longrightarrow> m \<le> ?N"
    using next_node_total[OF w] by blast
  show ?thesis
  proof (cases r)
    case None
    then show ?thesis using True c r i by (simp add: cursor_down_def)
  next
    case (Some m)
    then have m: "m \<le> ?N" using r(2) by simp
    then have "node_id (objects tc m) = m" using wf_node_id[OF w] by simp
    then show ?thesis using True c r(1) Some i m by (simp add: cursor_down_def control_inv_def)
  qed
qed

lemma cursor_up_inv:
  assumes i: "control_inv tc"
  shows "\<exists>tc'. cursor_up tc = Some (Inr tc') \<and> control_inv tc'"
proof (cases "show_cursor tc")
  case False
  then show ?thesis using i by (simp add: cursor_up_def control_inv_def)
next
  case True
  let ?N = "control_node_id tc"
  from i have w: "tree_wf (objects tc) ?N" and c: "nodes tc (cursor tc) = Some (cursor tc)"
    and cl: "cursor tc \<le> ?N"
    by (simp_all add: control_inv_def)
  obtain r where r: "previous_node (objects tc) (cursor tc) = Some r" "\<forall>m. r = Some m \<longrightarrow> m \<le> ?N"
    using previous_node_total[OF w cl] by blast
  show ?thesis
  proof (cases r)
    case None
    then show ?thesis using True c r i by (simp add: cursor_up_def)
  next
    case (Some m)
    then have m: "m \<le> ?N" using r(2) by simp
    then have "node_id (objects tc m) = m" using wf_node_id[OF w] by simp
    then show ?thesis using True c r(1) Some i m by (simp add: cursor_up_def control_inv_def)
  qed
qed

lemma tree_step_inv:
  assumes i: "control_inv tc"
  shows "(\<exists>tc'. tree_step op tc = Some (Inr tc') \<and> control_inv tc') \<or>
         tree_step op tc = Some (Inl KeyError)"
proof (cases op)
  case (Add nid)
  then show ?thesis using add_inv[OF i, of nid] by auto
next
  case (Expand nid b)
  then show ?thesis using expand_inv[OF i] by (cases "nodes tc nid") auto
next
  case (Toggle nid)
  then show ?thesis using toggle_inv[OF i] by (cases "nodes tc nid") auto
next
  case CursorDown
  then show ?thesis using cursor_down_inv[OF i] by auto
next
  case CursorUp
  then show ?thesis using cursor_up_inv[OF i] by auto
qed

lemma tree_run_inv:
  "control_inv tc \<Longrightarrow>
   (\<exists>tc'. tree_run ops tc = Some (Inr tc') \<and> control_inv tc') \<or>
   tree_run ops tc = Some (Inl KeyError)"
proof (induction ops arbitrary: tc)
  case Nil
  then show ?case by simp
next
  case (Cons op ops)
  from tree_step_inv[OF Cons.prems, of op] show ?case
  proof
    assume "\<exists>tc'. tree_step op tc = Some (Inr tc') \<and> control_inv tc'"
    then obtain tc1 where t: "tree_step op tc = Some (Inr tc1)" "control_inv tc1" by blast
    then show ?thesis using Cons.IH[OF t(2)] by simp
  next
    assume "tree_step op tc = Some (Inl KeyError)"
    then show ?thesis by simp
  qed
qed

lemma reachable_inv:
  "tree_run ops tree_control_init = Some (Inr tc) \<Longrightarrow> control_inv tc"
  using tree_run_inv[OF init_inv_tree, of ops] by auto





lemmas tree_eval = built_def spec_tree_ops_def add_def expand_def toggle_def new_node_def
  tree_control_init_def Let_def cursor_down_def cursor_up_def next_node_def previous_node_def
  next_sibling_def previous_sibling_def find_cursor_def
  next_node_loop_root next_node_loop_sibling next_node_loop_up last_sibling_leaf last_sibling_step
  find_cursor_loop_Nil find_cursor_loop_pop find_cursor_loop_found find_cursor_loop_push

lemma spec_tree_run: "tree_run spec_tree_ops tree_control_init = Some (Inr (built spec_tree_ops))"
  by (simp add: tree_eval)

lemma spec_tree_next:
  "next_node (objects (built spec_tree_ops)) 0 = Some (Some 1)"
  "next_node (objects (built spec_tree_ops)) 1 = Some (Some 3)"
  "next_node (objects (built spec_tree_ops)) 3 = Some (Some 4)"
  "next_node (objects (built spec_tree_ops)) 4 = Some (Some 2)"
  "next_node (objects (built spec_tree_ops)) 2 = Some None"
  by (simp_all add: tree_eval)






lemma reachable_nodes:
  assumes r: "tree_run ops tree_control_init = Some (Inr tc)"
  shows "n \<in> ran (nodes tc) \<longleftrightarrow> n \<le> control_node_id tc"
proof -
  have "\<forall>i. nodes tc i = (if i \<le> control_node_id tc then Some i else None)"
    using reachable_inv[OF r] by (simp add: control_inv_def)
  then show ?thesis by (auto simp: ran_def)
qed

lemma vis_adjacent:
  assumes w: "tree_wf s N" and v: "vis N s 0 = xs @ n # m # ys"
  shows "next_node s n = Some (Some m)" "previous_node s m = Some (Some n)"
proof -
  show "next_node s n = Some (Some m)" using next_node_vis[OF w v] by simp
  have "vis N s 0 = (xs @ [n]) @ m # ys" using v by simp
  from previous_node_vis[OF w this] show "previous_node s m = Some (Some n)" by simp
qed

lemma next_then_previous:
  assumes w: "tree_wf s N" and n: "n \<le> N" and v: "visible s n"
    and x: "next_node s n = Some (Some m)"
  shows "previous_node s m = Some (Some n) \<and> visible s m \<and> m \<le> N"
proof -
  have "n \<in> set (vis N s 0)" using visible_vis[OF w v n] .
  then obtain xs ys where sp: "vis N s 0 = xs @ n # ys" by (auto simp: in_set_conv_decomp)
  have r: "parent (s 0) = None" using w by (rule wf_root)
  have "next_node s n = (case ys of [] \<Rightarrow> up_next s 0 | b # _ \<Rightarrow> Some (Some b))"
    using next_node_vis[OF w sp] .
  then obtain ys' where ys: "ys = m # ys'"
    using x up_next_root[of s 0] r by (cases ys) auto
  then have sp': "vis N s 0 = xs @ n # m # ys'" using sp by simp
  have m: "m \<in> set (vis N s 0)" using sp' by simp
  have "visible s 0" using visible_root[of s 0] r by simp
  then have "visible s m" using vis_visible[OF w _ m] by blast
  moreover have "m \<le> N" using vis_bound[OF w _ m] by simp
  ultimately show ?thesis using vis_adjacent(2)[OF w sp'] by simp
qed

lemma previous_then_next:
  assumes w: "tree_wf s N" and m: "m \<le> N" and v: "visible s m"
    and x: "previous_node s m = Some (Some n)"
  shows "next_node s n = Some (Some m) \<and> visible s n \<and> n \<le> N"
proof -
  have "m \<in> set (vis N s 0)" using visible_vis[OF w v m] .
  then obtain xs ys where sp: "vis N s 0 = xs @ m # ys" by (auto simp: in_set_conv_decomp)
  have r: "parent (s 0) = None" using w by (rule wf_root)
  have ne: "xs \<noteq> []"
  proof
    assume "xs = []"
    then have "hd (vis N s 0) = m" using sp by simp
    then have "m = 0" using vis_hd[of N s 0] by simp
    then show False using x previous_node_root[of s 0] r by simp
  qed
  then have "previous_node s m = Some (Some (last xs))" using previous_node_vis[OF w sp] by simp
  then have l: "last xs = n" using x by simp
  have "xs = butlast xs @ [n]" using ne l by (metis append_butlast_last_id)
  then have sp': "vis N s 0 = butlast xs @ n # m # ys" using sp by (metis append.assoc append_Cons append_Nil)
  have n: "n \<in> set (vis N s 0)" using sp' by simp
  have "visible s 0" using visible_root[of s 0] r by simp
  then have "visible s n" using vis_visible[OF w _ n] by blast
  moreover have "n \<le> N" using vis_bound[OF w _ n] by simp
  ultimately show ?thesis using vis_adjacent(1)[OF w sp'] by simp
qed

text \<open>
  C10. In every control reached from a new one, for every node \<open>n\<close> of the control all of
  whose ancestors are expanded: if \<^verbatim>\<open>next_node(n)\<close> is a node \<open>m\<close>, then \<^verbatim>\<open>previous_node(m)\<close>
  is \<open>n\<close>, and \<open>m\<close> is in the visible traversal too; and the other way round, if
  \<^verbatim>\<open>previous_node(m)\<close> of a visible node \<open>m\<close> is \<open>n\<close>, then \<^verbatim>\<open>next_node(n)\<close> is \<open>m\<close>.
\<close>

theorem next_previous_inverse:
  assumes r: "tree_run ops tree_control_init = Some (Inr tc)"
  shows "(n \<in> ran (nodes tc) \<and> visible (objects tc) n \<and>
            next_node (objects tc) n = Some (Some m) \<longrightarrow>
          previous_node (objects tc) m = Some (Some n) \<and> visible (objects tc) m \<and>
            m \<in> ran (nodes tc)) \<and>
         (m \<in> ran (nodes tc) \<and> visible (objects tc) m \<and>
            previous_node (objects tc) m = Some (Some n) \<longrightarrow>
          next_node (objects tc) n = Some (Some m) \<and> visible (objects tc) n \<and>
            n \<in> ran (nodes tc))"
proof -
  have w: "tree_wf (objects tc) (control_node_id tc)"
    using reachable_inv[OF r] by (simp add: control_inv_def)
  show ?thesis
    using next_then_previous[OF w, of n m] previous_then_next[OF w, of m n]
    unfolding reachable_nodes[OF r] by blast
qed

lemma spec_tree_facts:
  "parent (objects (built spec_tree_ops) 0) = None"
  "parent (objects (built spec_tree_ops) 1) = Some 0"
  "parent (objects (built spec_tree_ops) 2) = Some 0"
  "parent (objects (built spec_tree_ops) 4) = Some 1"
  "expanded (objects (built spec_tree_ops) 0)"
  "expanded (objects (built spec_tree_ops) 1)"
  "nodes (built spec_tree_ops) 2 = Some 2"
  "nodes (built spec_tree_ops) 4 = Some 4"
  by (simp_all add: tree_eval)

theorem next_previous_inverse_witness:
  "tree_run spec_tree_ops tree_control_init = Some (Inr (built spec_tree_ops)) \<and>
   (4 \<in> ran (nodes (built spec_tree_ops)) \<and> visible (objects (built spec_tree_ops)) 4 \<and>
      next_node (objects (built spec_tree_ops)) 4 = Some (Some 2)) \<and>
   (2 \<in> ran (nodes (built spec_tree_ops)) \<and> visible (objects (built spec_tree_ops)) 2 \<and>
      previous_node (objects (built spec_tree_ops)) 2 = Some (Some 4))"
proof -
  let ?T = "built spec_tree_ops"
  have v0: "visible (objects ?T) 0" using spec_tree_facts(1) by (rule visible_root)
  have v1: "visible (objects ?T) 1" using spec_tree_facts(2,5) v0 by (rule visible_child)
  have v2: "visible (objects ?T) 2" using spec_tree_facts(3,5) v0 by (rule visible_child)
  have v4: "visible (objects ?T) 4" using spec_tree_facts(4,6) v1 by (rule visible_child)
  have r4: "4 \<in> ran (nodes ?T)" using spec_tree_facts(8) by (rule ranI)
  have h: "4 \<in> ran (nodes ?T) \<and> visible (objects ?T) 4 \<and>
      next_node (objects ?T) 4 = Some (Some 2)"
    using r4 v4 spec_tree_next(4) by (intro conjI)
  note t = next_previous_inverse [OF spec_tree_run, of 4 2]
  from mp[OF conjunct1[OF t] h] have
    "previous_node (objects ?T) 2 = Some (Some 4) \<and> visible (objects ?T) 2 \<and>
       2 \<in> ran (nodes ?T)" .
  then have g: "2 \<in> ran (nodes ?T) \<and> visible (objects ?T) 2 \<and>
      previous_node (objects ?T) 2 = Some (Some 4)" by simp
  from mp[OF conjunct2[OF t] g] have "next_node (objects ?T) 4 = Some (Some 2)" by simp
  show ?thesis by (rule conjI[OF spec_tree_run conjI[OF h g]])
qed

text \<open>
  C7. A \<^verbatim>\<open>cursor_down\<close> or \<^verbatim>\<open>cursor_up\<close> call made while \<^verbatim>\<open>show_cursor\<close> is false, on any
  control, only sets \<^verbatim>\<open>show_cursor\<close>. On every control reached from a new one, with
  \<^verbatim>\<open>show_cursor\<close> true, the calls return without an exception; the cursor node exists,
  \<^verbatim>\<open>next_node\<close> and \<^verbatim>\<open>previous_node\<close> of it return; when the result is a node, that node
  becomes the cursor node and \<^verbatim>\<open>cursor_line\<close> is increased (decreased) by one; when it is
  none, the control is left as it is. On a new control (an unexpanded root without
  children) two \<^verbatim>\<open>cursor_down\<close> calls leave the cursor at the root; so they do when the
  root has a child and is not expanded; when the root is expanded, the second call moves
  the cursor to its first child.
\<close>

theorem cursor_moves:
  "(\<not> show_cursor tc0 \<longrightarrow>
      cursor_down tc0 = Some (Inr (tc0\<lparr>show_cursor := True\<rparr>)) \<and>
      cursor_up tc0 = Some (Inr (tc0\<lparr>show_cursor := True\<rparr>))) \<and>
   (tree_run ops tree_control_init = Some (Inr tc) \<and> show_cursor tc \<longrightarrow>
      (\<exists>a nx pv. nodes tc (cursor tc) = Some a \<and>
         next_node (objects tc) a = Some nx \<and> previous_node (objects tc) a = Some pv \<and>
         cursor_down tc =
           Some (Inr (case nx of None \<Rightarrow> tc
                      | Some n \<Rightarrow> tc\<lparr>cursor_line := cursor_line tc + 1,
                                        cursor := node_id (objects tc n)\<rparr>)) \<and>
         cursor_up tc =
           Some (Inr (case pv of None \<Rightarrow> tc
                      | Some n \<Rightarrow> tc\<lparr>cursor_line := cursor_line tc - 1,
                                        cursor := node_id (objects tc n)\<rparr>)) \<and>
         (\<forall>n. nx = Some n \<or> pv = Some n \<longrightarrow> nodes tc (node_id (objects tc n)) = Some n))) \<and>
   tree_run [CursorDown, CursorDown] tree_control_init =
     Some (Inr (tree_control_init\<lparr>show_cursor := True\<rparr>)) \<and>
   map_option (map_sum id (\<lambda>c. (show_cursor c, cursor c, cursor_line c)))
     (tree_run [Add 0, CursorDown, CursorDown] tree_control_init) = Some (Inr (True, 0, 0)) \<and>
   map_option (map_sum id (\<lambda>c. (show_cursor c, cursor c, cursor_line c)))
     (tree_run [Add 0, Expand 0 True, CursorDown] tree_control_init) = Some (Inr (True, 0, 0)) \<and>
   map_option (map_sum id (\<lambda>c. (show_cursor c, cursor c, cursor_line c)))
     (tree_run [Add 0, Expand 0 True, CursorDown, CursorDown] tree_control_init) =
     Some (Inr (True, 1, 1))"
proof -
  have a: "\<not> show_cursor tc0 \<longrightarrow>
      cursor_down tc0 = Some (Inr (tc0\<lparr>show_cursor := True\<rparr>)) \<and>
      cursor_up tc0 = Some (Inr (tc0\<lparr>show_cursor := True\<rparr>))"
    by (simp add: cursor_down_def cursor_up_def)
  have b: "\<exists>a nx pv. nodes tc (cursor tc) = Some a \<and>
         next_node (objects tc) a = Some nx \<and> previous_node (objects tc) a = Some pv \<and>
         cursor_down tc =
           Some (Inr (case nx of None \<Rightarrow> tc
                      | Some n \<Rightarrow> tc\<lparr>cursor_line := cursor_line tc + 1,
                                        cursor := node_id (objects tc n)\<rparr>)) \<and>
         cursor_up tc =
           Some (Inr (case pv of None \<Rightarrow> tc
                      | Some n \<Rightarrow> tc\<lparr>cursor_line := cursor_line tc - 1,
                                        cursor := node_id (objects tc n)\<rparr>)) \<and>
         (\<forall>n. nx = Some n \<or> pv = Some n \<longrightarrow> nodes tc (node_id (objects tc n)) = Some n)"
    if r: "tree_run ops tree_control_init = Some (Inr tc)" and sc: "show_cursor tc"
  proof -
    let ?s = "objects tc" and ?N = "control_node_id tc"
    have i: "control_inv tc" using r by (rule reachable_inv)
    then have w: "tree_wf ?s ?N" and c: "cursor tc \<le> ?N"
      and nd: "\<And>i. nodes tc i = (if i \<le> ?N then Some i else None)"
      by (simp_all add: control_inv_def)
    have cn: "nodes tc (cursor tc) = Some (cursor tc)" using nd c by simp
    obtain nx where nx: "next_node ?s (cursor tc) = Some nx" "\<forall>m. nx = Some m \<longrightarrow> m \<le> ?N"
      using next_node_total[OF w, of "cursor tc"] by blast
    obtain pv where pv: "previous_node ?s (cursor tc) = Some pv" "\<forall>m. pv = Some m \<longrightarrow> m \<le> ?N"
      using previous_node_total[OF w c] by blast
    have d: "cursor_down tc =
           Some (Inr (case nx of None \<Rightarrow> tc
                      | Some n \<Rightarrow> tc\<lparr>cursor_line := cursor_line tc + 1,
                                        cursor := node_id (objects tc n)\<rparr>))"
      using sc cn nx(1) by (simp add: cursor_down_def split: option.splits)
    have u: "cursor_up tc =
           Some (Inr (case pv of None \<Rightarrow> tc
                      | Some n \<Rightarrow> tc\<lparr>cursor_line := cursor_line tc - 1,
                                        cursor := node_id (objects tc n)\<rparr>))"
      using sc cn pv(1) by (simp add: cursor_up_def split: option.splits)
    have "\<forall>n. nx = Some n \<or> pv = Some n \<longrightarrow> nodes tc (node_id (objects tc n)) = Some n"
    proof (intro allI impI)
      fix n assume "nx = Some n \<or> pv = Some n"
      then have "n \<le> ?N" using nx(2) pv(2) by blast
      then show "nodes tc (node_id (objects tc n)) = Some n"
        using wf_node_id[OF w, of n] nd by simp
    qed
    then show ?thesis using cn nx(1) pv(1) d u by blast
  qed
  have c1: "tree_run [CursorDown, CursorDown] tree_control_init =
     Some (Inr (tree_control_init\<lparr>show_cursor := True\<rparr>))"
    by (simp add: tree_eval)
  have c2: "map_option (map_sum id (\<lambda>c. (show_cursor c, cursor c, cursor_line c)))
     (tree_run [Add 0, CursorDown, CursorDown] tree_control_init) = Some (Inr (True, 0, 0))"
    by (simp add: tree_eval)
  have c3: "map_option (map_sum id (\<lambda>c. (show_cursor c, cursor c, cursor_line c)))
     (tree_run [Add 0, Expand 0 True, CursorDown] tree_control_init) = Some (Inr (True, 0, 0))"
    by (simp add: tree_eval)
  have c4: "map_option (map_sum id (\<lambda>c. (show_cursor c, cursor c, cursor_line c)))
     (tree_run [Add 0, Expand 0 True, CursorDown, CursorDown] tree_control_init) =
     Some (Inr (True, 1, 1))"
    by (simp add: tree_eval)
  from b have b': "tree_run ops tree_control_init = Some (Inr tc) \<and> show_cursor tc \<longrightarrow>
      (\<exists>a nx pv. nodes tc (cursor tc) = Some a \<and>
         next_node (objects tc) a = Some nx \<and> previous_node (objects tc) a = Some pv \<and>
         cursor_down tc =
           Some (Inr (case nx of None \<Rightarrow> tc
                      | Some n \<Rightarrow> tc\<lparr>cursor_line := cursor_line tc + 1,
                                        cursor := node_id (objects tc n)\<rparr>)) \<and>
         cursor_up tc =
           Some (Inr (case pv of None \<Rightarrow> tc
                      | Some n \<Rightarrow> tc\<lparr>cursor_line := cursor_line tc - 1,
                                        cursor := node_id (objects tc n)\<rparr>)) \<and>
         (\<forall>n. nx = Some n \<or> pv = Some n \<longrightarrow> nodes tc (node_id (objects tc n)) = Some n))"
    by blast
  show ?thesis by (rule conjI[OF a conjI[OF b' conjI[OF c1 conjI[OF c2 conjI[OF c3 c4]]]]])
qed

theorem cursor_moves_witness:
  "\<not> show_cursor tree_control_init \<and>
   cursor_down tree_control_init = Some (Inr (tree_control_init\<lparr>show_cursor := True\<rparr>)) \<and>
   (tree_run [Add 0, Expand 0 True, CursorDown] tree_control_init =
      Some (Inr (built [Add 0, Expand 0 True, CursorDown])) \<and>
    show_cursor (built [Add 0, Expand 0 True, CursorDown])) \<and>
   (\<exists>n. next_node (objects (built [Add 0, Expand 0 True, CursorDown])) 0 = Some (Some n) \<and>
      cursor_down (built [Add 0, Expand 0 True, CursorDown]) =
        Some (Inr ((built [Add 0, Expand 0 True, CursorDown])
          \<lparr>cursor_line := cursor_line (built [Add 0, Expand 0 True, CursorDown]) + 1,
           cursor := node_id (objects (built [Add 0, Expand 0 True, CursorDown]) n)\<rparr>)) \<and>
      nodes (built [Add 0, Expand 0 True, CursorDown])
        (node_id (objects (built [Add 0, Expand 0 True, CursorDown]) n)) = Some n)"
proof -
  let ?ops = "[Add 0, Expand 0 True, CursorDown]"
  let ?T = "built ?ops"
  note t = cursor_moves [of tree_control_init ?ops ?T]
  have h0: "\<not> show_cursor tree_control_init" by (simp add: tree_control_init_def)
  have r: "tree_run ?ops tree_control_init = Some (Inr ?T) \<and> show_cursor ?T"
    by (simp add: tree_eval)
  have e: "nodes ?T (cursor ?T) = Some 0" "next_node (objects ?T) 0 = Some (Some 1)"
    by (simp_all add: tree_eval)
  from mp[OF conjunct1[OF t] h0]
  have d0: "cursor_down tree_control_init = Some (Inr (tree_control_init\<lparr>show_cursor := True\<rparr>))"
    by (rule conjunct1)
  from mp[OF conjunct1[OF conjunct2[OF t]] r] obtain a nx pv where
    m: "nodes ?T (cursor ?T) = Some a \<and>
         next_node (objects ?T) a = Some nx \<and> previous_node (objects ?T) a = Some pv \<and>
         cursor_down ?T =
           Some (Inr (case nx of None \<Rightarrow> ?T
                      | Some n \<Rightarrow> ?T\<lparr>cursor_line := cursor_line ?T + 1,
                                        cursor := node_id (objects ?T n)\<rparr>)) \<and>
         cursor_up ?T =
           Some (Inr (case pv of None \<Rightarrow> ?T
                      | Some n \<Rightarrow> ?T\<lparr>cursor_line := cursor_line ?T - 1,
                                        cursor := node_id (objects ?T n)\<rparr>)) \<and>
         (\<forall>n. nx = Some n \<or> pv = Some n \<longrightarrow> nodes ?T (node_id (objects ?T n)) = Some n)"
    by (elim exE)
  have a: "a = 0" using conjunct1[OF m] e(1) by simp
  have nx: "nx = Some 1" using conjunct1[OF conjunct2[OF m]] e(2) unfolding a by simp
  have cd: "cursor_down ?T =
           Some (Inr (?T\<lparr>cursor_line := cursor_line ?T + 1, cursor := node_id (objects ?T 1)\<rparr>))"
    using conjunct1[OF conjunct2[OF conjunct2[OF conjunct2[OF m]]]] unfolding nx by simp
  have nn: "nodes ?T (node_id (objects ?T 1)) = Some 1"
    using conjunct2[OF conjunct2[OF conjunct2[OF conjunct2[OF conjunct2[OF m]]]]] nx by blast
  have "\<exists>n. next_node (objects ?T) 0 = Some (Some n) \<and>
      cursor_down ?T =
        Some (Inr (?T\<lparr>cursor_line := cursor_line ?T + 1, cursor := node_id (objects ?T n)\<rparr>)) \<and>
      nodes ?T (node_id (objects ?T n)) = Some n"
    using e(2) cd nn by blast
  then show ?thesis by (rule conjI[OF h0 conjI[OF d0 conjI[OF r]]])
qed

end
